theory Spec2Isabelle
  imports Complex_Main "HOL-Library.Word" "HOL-Library.Signed_Division"
begin

unbundle bit_operations_syntax

section \<open>DS1821 bit-bang utility: data model\<close>

type_synonym u8 = "8 word"
type_synonym i32 = "32 word"

text \<open>
  C's \<open>int\<close> is a 32-bit two's complement word here. \<open>uint8_t\<close> and \<open>int8_t\<close>
  share the 8-bit representation; \<open>uint\<close> reads it unsigned, \<open>sint\<close> signed.
  The integer promotions of C are the two conversions below.
\<close>

definition int_of_u8 :: "u8 \<Rightarrow> i32" where
  "int_of_u8 b = ucast b"

definition int_of_i8 :: "u8 \<Rightarrow> i32" where
  "int_of_i8 b = scast b"

text \<open>C's \<open>/\<close> on \<open>int\<close> truncates towards zero.\<close>

definition c_div :: "i32 \<Rightarrow> i32 \<Rightarrow> i32" where
  "c_div a b = word_of_int (sint a sdiv sint b)"

section \<open>ROM layer: CRC-8\<close>

text \<open>
  \<open>ow_crc8\<close>, inner loop over the eight bits of one byte (loop variable \<open>j\<close>):
  \<^verbatim>\<open>mix = (crc ^ byte) & 0x01; crc >>= 1; if (mix) crc ^= 0x8C; byte >>= 1;\<close>
\<close>

function crc8_bits :: "nat \<Rightarrow> u8 \<Rightarrow> u8 \<Rightarrow> u8" where
  "crc8_bits j crc byte =
     (if j < 8 then
        (let mix = (crc XOR byte) AND 0x01;
             crc1 = drop_bit 1 crc;
             crc2 = (if mix \<noteq> 0 then crc1 XOR 0x8C else crc1)
         in crc8_bits (j + 1) crc2 (drop_bit 1 byte))
      else crc)"
  by pat_completeness auto
termination
  by (relation "measure (\<lambda>(j, crc, byte). 8 - j)") auto

declare crc8_bits.simps [simp del]

text \<open>Outer loop over \<open>data[0..len)\<close> (loop variable \<open>i\<close>).\<close>

function crc8_bytes :: "u8 list \<Rightarrow> int \<Rightarrow> nat \<Rightarrow> u8 \<Rightarrow> u8" where
  "crc8_bytes data len i crc =
     (if int i < len then crc8_bytes data len (i + 1) (crc8_bits 0 crc (data ! i)) else crc)"
  by pat_completeness auto
termination
  by (relation "measure (\<lambda>(data, len, i, crc). nat (len - int i))") auto

declare crc8_bytes.simps [simp del]

text \<open>
  Reading \<open>data[i]\<close> beyond the buffer is undefined in C; the model returns \<open>None\<close> for
  a length that exceeds the buffer.
\<close>

definition ow_crc8 :: "u8 list \<Rightarrow> int \<Rightarrow> u8 option" where
  "ow_crc8 data len =
     (if len \<le> int (length data) then Some (crc8_bytes data len 0 0) else None)"


section \<open>High-resolution temperature\<close>

text \<open>
  \<open>action_read_temp\<close>, \<open>action_status\<close> and \<open>read_hw_temperature\<close> share the computation:
  \<^verbatim>\<open>int cpc = count_per_c ? count_per_c : 1;
  int millideg = (int)temp * 1000 - 250 + ((int)(cpc - count_remain) * 1000) / cpc;\<close>
\<close>

definition cpc_of :: "u8 \<Rightarrow> i32" where
  "cpc_of count_per_c = (if count_per_c \<noteq> 0 then int_of_u8 count_per_c else 1)"

definition millideg :: "u8 \<Rightarrow> u8 \<Rightarrow> u8 \<Rightarrow> i32" where
  "millideg temp count_remain count_per_c =
     (let cpc = cpc_of count_per_c
      in int_of_i8 temp * 1000 - 250 + c_div ((cpc - int_of_u8 count_remain) * 1000) cpc)"

text \<open>
  \<^verbatim>\<open>float hires = (float)temp - 0.25f + (float)(cpc - count_remain) / (float)cpc;\<close>
  The model computes over the reals; binary32 rounding is not modelled.
\<close>

definition hires :: "u8 \<Rightarrow> u8 \<Rightarrow> u8 \<Rightarrow> real" where
  "hires temp count_remain count_per_c =
     (let cpc = cpc_of count_per_c
      in of_int (sint (int_of_i8 temp)) - 1 / 4
         + of_int (sint (cpc - int_of_u8 count_remain)) / of_int (sint cpc))"


section \<open>Bus line driver (GPIO level)\<close>

text \<open>
  The pigpio library is the program's environment. A pin has a direction, a pull
  configuration and an output latch; every library call is recorded in a trace. The level
  that \<open>gpioRead\<close> returns is decided by the outside world: \<open>line w k\<close> is the level seen
  by the \<open>k\<close>-th read.
\<close>

datatype pin_mode = PI_INPUT | PI_OUTPUT

datatype pin_pud = PI_PUD_OFF | PI_PUD_DOWN | PI_PUD_UP

record pin_state =
  pmode :: pin_mode
  ppud :: pin_pud
  plevel :: bool

datatype gpio_event =
    SetMode int pin_mode
  | SetPullUpDown int pin_pud
  | GpioWrite int bool
  | GpioRead int bool
  | GpioDelay nat
  | USleep nat

datatype msg =
    Usage
  | Unknown_option string
  | Unknown_action string
  | Not_root
  | Init_failed
  | Warn_TL_ge_TH
  | No_power_gpio
  | Temperature_report int
  | KeyVal string int

record world =
  pins :: "int \<Rightarrow> pin_state"
  trace :: "gpio_event list"
  line :: "nat \<Rightarrow> bool"
  nsample :: nat
  diag :: "msg list"

text \<open>The process-wide configuration variables of the program.\<close>

record config =
  gpio_pin :: int
  power_pin :: int
  read_tout_flag :: bool
  verbose :: bool
  quiet :: bool

definition default_config :: config where
  "default_config =
     \<lparr>gpio_pin = 17, power_pin = -1, read_tout_flag = False, verbose = False, quiet = False\<rparr>"

definition emit :: "gpio_event \<Rightarrow> world \<Rightarrow> world" where
  "emit e w = w\<lparr>trace := trace w @ [e]\<rparr>"

definition say :: "msg \<Rightarrow> world \<Rightarrow> world" where
  "say m w = w\<lparr>diag := diag w @ [m]\<rparr>"

definition gpioSetMode :: "int \<Rightarrow> pin_mode \<Rightarrow> world \<Rightarrow> world" where
  "gpioSetMode p m w = emit (SetMode p m) (w\<lparr>pins := (pins w)(p := (pins w p)\<lparr>pmode := m\<rparr>)\<rparr>)"

definition gpioSetPullUpDown :: "int \<Rightarrow> pin_pud \<Rightarrow> world \<Rightarrow> world" where
  "gpioSetPullUpDown p u w =
     emit (SetPullUpDown p u) (w\<lparr>pins := (pins w)(p := (pins w p)\<lparr>ppud := u\<rparr>)\<rparr>)"

definition gpioWrite :: "int \<Rightarrow> bool \<Rightarrow> world \<Rightarrow> world" where
  "gpioWrite p l w = emit (GpioWrite p l) (w\<lparr>pins := (pins w)(p := (pins w p)\<lparr>plevel := l\<rparr>)\<rparr>)"

definition gpioRead :: "int \<Rightarrow> world \<Rightarrow> bool \<times> world" where
  "gpioRead p w =
     (let v = line w (nsample w)
      in (v, emit (GpioRead p v) (w\<lparr>nsample := nsample w + 1\<rparr>)))"

definition gpioDelay :: "nat \<Rightarrow> world \<Rightarrow> world" where
  "gpioDelay us w = emit (GpioDelay us) w"

definition usleep :: "nat \<Rightarrow> world \<Rightarrow> world" where
  "usleep us w = emit (USleep us) w"

subsection \<open>Timing constants (microseconds)\<close>

definition OW_RESET_LOW_US :: nat where "OW_RESET_LOW_US = 480"
definition OW_RESET_RELEASE_US :: nat where "OW_RESET_RELEASE_US = 70"
definition OW_RESET_PRESENCE_US :: nat where "OW_RESET_PRESENCE_US = 410"
definition OW_WRITE1_LOW_US :: nat where "OW_WRITE1_LOW_US = 6"
definition OW_WRITE1_RELEASE_US :: nat where "OW_WRITE1_RELEASE_US = 64"
definition OW_WRITE0_LOW_US :: nat where "OW_WRITE0_LOW_US = 60"
definition OW_WRITE0_RELEASE_US :: nat where "OW_WRITE0_RELEASE_US = 10"
definition OW_READ_LOW_US :: nat where "OW_READ_LOW_US = 6"
definition OW_READ_SAMPLE_US :: nat where "OW_READ_SAMPLE_US = 9"
definition OW_READ_SLOT_US :: nat where "OW_READ_SLOT_US = 55"
definition OW_RECOVERY_US :: nat where "OW_RECOVERY_US = 2"

subsection \<open>Pin control\<close>

definition ow_release :: "config \<Rightarrow> world \<Rightarrow> world" where
  "ow_release c w = gpioSetPullUpDown (gpio_pin c) PI_PUD_UP (gpioSetMode (gpio_pin c) PI_INPUT w)"

definition ow_drive_low :: "config \<Rightarrow> world \<Rightarrow> world" where
  "ow_drive_low c w = gpioWrite (gpio_pin c) False (gpioSetMode (gpio_pin c) PI_OUTPUT w)"

definition ow_read_bit_raw :: "config \<Rightarrow> world \<Rightarrow> bool \<times> world" where
  "ow_read_bit_raw c w = gpioRead (gpio_pin c) w"

section \<open>Bit-level transceiver\<close>

text \<open>Reset pulse: the result is the presence flag (\<open>!ow_read_bit_raw()\<close>, low means present).\<close>

definition ow_reset :: "config \<Rightarrow> world \<Rightarrow> bool \<times> world" where
  "ow_reset c w =
     (let w1 = ow_drive_low c w;
          w2 = gpioDelay OW_RESET_LOW_US w1;
          w3 = ow_release c w2;
          w4 = gpioDelay OW_RESET_RELEASE_US w3;
          (v, w5) = ow_read_bit_raw c w4;
          presence = (\<not> v);
          w6 = gpioDelay OW_RESET_PRESENCE_US w5
      in (presence, w6))"

definition ow_write_bit :: "config \<Rightarrow> bool \<Rightarrow> world \<Rightarrow> world" where
  "ow_write_bit c b w =
     (let w4 =
        (if b then
           (let w1 = ow_drive_low c w;
                w2 = gpioDelay OW_WRITE1_LOW_US w1;
                w3 = ow_release c w2
            in gpioDelay OW_WRITE1_RELEASE_US w3)
         else
           (let w1 = ow_drive_low c w;
                w2 = gpioDelay OW_WRITE0_LOW_US w1;
                w3 = ow_release c w2
            in gpioDelay OW_WRITE0_RELEASE_US w3))
      in gpioDelay OW_RECOVERY_US w4)"

definition ow_read_bit :: "config \<Rightarrow> world \<Rightarrow> bool \<times> world" where
  "ow_read_bit c w =
     (let w1 = ow_drive_low c w;
          w2 = gpioDelay OW_READ_LOW_US w1;
          w3 = ow_release c w2;
          w4 = gpioDelay OW_READ_SAMPLE_US w3;
          (b, w5) = ow_read_bit_raw c w4;
          w6 = gpioDelay OW_READ_SLOT_US w5;
          w7 = gpioDelay OW_RECOVERY_US w6
      in (b, w7))"

section \<open>Byte-level codec, device command layer and ROM layer over a bit-level bus\<close>

text \<open>
  The layers above the bit-level transceiver reach the bus only through \<open>ow_reset\<close>,
  \<open>ow_write_bit\<close>, \<open>ow_read_bit\<close>, \<open>ow_release\<close> and \<open>usleep\<close>. They are written over a
  record of these five operations, so that the same definitions run on the GPIO
  implementation above and on a simulated bus.
\<close>

record 's bitbus =
  reset :: "'s \<Rightarrow> bool \<times> 's"
  write_bit :: "bool \<Rightarrow> 's \<Rightarrow> 's"
  read_bit :: "'s \<Rightarrow> bool \<times> 's"
  release :: "'s \<Rightarrow> 's"
  sleep_us :: "nat \<Rightarrow> 's \<Rightarrow> 's"

definition gpio_bus :: "config \<Rightarrow> world bitbus" where
  "gpio_bus c =
     \<lparr>reset = ow_reset c, write_bit = ow_write_bit c, read_bit = ow_read_bit c,
      release = ow_release c, sleep_us = usleep\<rparr>"

text \<open>\<^verbatim>\<open>for (int i = 0; i < 8; i++) { ow_write_bit(byte & 0x01); byte >>= 1; }\<close>\<close>

function write_byte_loop :: "'s bitbus \<Rightarrow> nat \<Rightarrow> u8 \<Rightarrow> 's \<Rightarrow> 's" where
  "write_byte_loop B i byte s =
     (if i < 8 then
        write_byte_loop B (i + 1) (drop_bit 1 byte) (write_bit B (byte AND 0x01 \<noteq> 0) s)
      else s)"
  by pat_completeness auto
termination
  by (relation "measure (\<lambda>(B, i, byte, s). 8 - i)") auto

declare write_byte_loop.simps [simp del]

definition ow_write_byte :: "'s bitbus \<Rightarrow> u8 \<Rightarrow> 's \<Rightarrow> 's" where
  "ow_write_byte B byte s = write_byte_loop B 0 byte s"

text \<open>\<^verbatim>\<open>for (int i = 0; i < 8; i++) { if (ow_read_bit()) byte |= (1 << i); }\<close>\<close>

function read_byte_loop :: "'s bitbus \<Rightarrow> nat \<Rightarrow> u8 \<Rightarrow> 's \<Rightarrow> u8 \<times> 's" where
  "read_byte_loop B i byte s =
     (if i < 8 then
        (let (b, s1) = read_bit B s
         in read_byte_loop B (i + 1) (if b then byte OR push_bit i 1 else byte) s1)
      else (byte, s))"
  by pat_completeness auto
termination
  by (relation "measure (\<lambda>(B, i, byte, s). 8 - i)") auto

declare read_byte_loop.simps [simp del]

definition ow_read_byte :: "'s bitbus \<Rightarrow> 's \<Rightarrow> u8 \<times> 's" where
  "ow_read_byte B s = read_byte_loop B 0 0 s"

subsection \<open>DS1821 function codes\<close>

definition DS1821_CMD_START_CONVERT :: u8 where "DS1821_CMD_START_CONVERT = 0xEE"
definition DS1821_CMD_READ_TEMP :: u8 where "DS1821_CMD_READ_TEMP = 0xAA"
definition DS1821_CMD_READ_COUNTER :: u8 where "DS1821_CMD_READ_COUNTER = 0xA0"
definition DS1821_CMD_READ_SLOPE :: u8 where "DS1821_CMD_READ_SLOPE = 0xA9"
definition DS1821_CMD_READ_TH :: u8 where "DS1821_CMD_READ_TH = 0xA1"
definition DS1821_CMD_READ_TL :: u8 where "DS1821_CMD_READ_TL = 0xA2"
definition DS1821_CMD_WRITE_TH :: u8 where "DS1821_CMD_WRITE_TH = 0x01"
definition DS1821_CMD_WRITE_TL :: u8 where "DS1821_CMD_WRITE_TL = 0x02"
definition DS1821_CMD_READ_STATUS :: u8 where "DS1821_CMD_READ_STATUS = 0xAC"
definition DS1821_CMD_WRITE_STATUS :: u8 where "DS1821_CMD_WRITE_STATUS = 0x0C"
definition DS1821_STATUS_DONE :: u8 where "DS1821_STATUS_DONE = 0x80"
definition DS1821_STATUS_THF :: u8 where "DS1821_STATUS_THF = 0x40"
definition DS1821_STATUS_TLF :: u8 where "DS1821_STATUS_TLF = 0x20"
definition DS1821_STATUS_NVB :: u8 where "DS1821_STATUS_NVB = 0x10"
definition DS1821_STATUS_1SHOT :: u8 where "DS1821_STATUS_1SHOT = 0x01"
definition OW_CMD_READ_ROM :: u8 where "OW_CMD_READ_ROM = 0x33"
definition OW_CMD_SKIP_ROM :: u8 where "OW_CMD_SKIP_ROM = 0xCC"
definition OW_CMD_SEARCH_ROM :: u8 where "OW_CMD_SEARCH_ROM = 0xF0"

subsection \<open>Device command layer\<close>

text \<open>
  Every operation returns \<open>-1\<close> (here \<open>None\<close>) when the reset sees no presence pulse and
  \<open>0\<close> otherwise; a read stores the byte through its out-parameter (here \<open>Some\<close> of it).
  An \<open>int8_t\<close> out-parameter or argument holds the same eight bits as the \<open>uint8_t\<close> on the
  bus. The messages printed on a missing presence pulse and the \<open>verbose\<close> tracing of the
  bit and byte operations are not modelled.
\<close>

definition ds1821_read_status_reg :: "'s bitbus \<Rightarrow> 's \<Rightarrow> u8 option \<times> 's" where
  "ds1821_read_status_reg B s =
     (let (presence, s1) = reset B s
      in if \<not> presence then (None, s1)
         else (let s2 = ow_write_byte B DS1821_CMD_READ_STATUS s1;
                   (v, s3) = ow_read_byte B s2
               in (Some v, s3)))"

text \<open>After the two bytes the line is released and the EEPROM write is waited out: \<open>usleep(200000)\<close>.\<close>

definition ds1821_write_status_reg :: "'s bitbus \<Rightarrow> u8 \<Rightarrow> 's \<Rightarrow> unit option \<times> 's" where
  "ds1821_write_status_reg B status s =
     (let (presence, s1) = reset B s
      in if \<not> presence then (None, s1)
         else (let s2 = ow_write_byte B DS1821_CMD_WRITE_STATUS s1;
                   s3 = ow_write_byte B status s2;
                   s4 = release B s3;
                   s5 = sleep_us B 200000 s4
               in (Some (), s5)))"

definition ds1821_write_status_skiprom :: "'s bitbus \<Rightarrow> u8 \<Rightarrow> 's \<Rightarrow> unit option \<times> 's" where
  "ds1821_write_status_skiprom B status s =
     (let (presence, s1) = reset B s
      in if \<not> presence then (None, s1)
         else (let s2 = ow_write_byte B OW_CMD_SKIP_ROM s1;
                   s3 = ow_write_byte B DS1821_CMD_WRITE_STATUS s2;
                   s4 = ow_write_byte B status s3;
                   s5 = release B s4;
                   s6 = sleep_us B 200000 s5
               in (Some (), s6)))"

definition ds1821_read_status_skiprom :: "'s bitbus \<Rightarrow> 's \<Rightarrow> u8 option \<times> 's" where
  "ds1821_read_status_skiprom B s =
     (let (presence, s1) = reset B s
      in if \<not> presence then (None, s1)
         else (let s2 = ow_write_byte B OW_CMD_SKIP_ROM s1;
                   s3 = ow_write_byte B DS1821_CMD_READ_STATUS s2;
                   (v, s4) = ow_read_byte B s3
               in (Some v, s4)))"

definition ds1821_read_temperature :: "'s bitbus \<Rightarrow> 's \<Rightarrow> u8 option \<times> 's" where
  "ds1821_read_temperature B s =
     (let (presence, s1) = reset B s
      in if \<not> presence then (None, s1)
         else (let s2 = ow_write_byte B DS1821_CMD_READ_TEMP s1;
                   (v, s3) = ow_read_byte B s2
               in (Some v, s3)))"

definition ds1821_read_counter :: "'s bitbus \<Rightarrow> 's \<Rightarrow> u8 option \<times> 's" where
  "ds1821_read_counter B s =
     (let (presence, s1) = reset B s
      in if \<not> presence then (None, s1)
         else (let s2 = ow_write_byte B DS1821_CMD_READ_COUNTER s1;
                   (v, s3) = ow_read_byte B s2
               in (Some v, s3)))"

definition ds1821_read_slope :: "'s bitbus \<Rightarrow> 's \<Rightarrow> u8 option \<times> 's" where
  "ds1821_read_slope B s =
     (let (presence, s1) = reset B s
      in if \<not> presence then (None, s1)
         else (let s2 = ow_write_byte B DS1821_CMD_READ_SLOPE s1;
                   (v, s3) = ow_read_byte B s2
               in (Some v, s3)))"

definition ds1821_start_convert :: "'s bitbus \<Rightarrow> 's \<Rightarrow> unit option \<times> 's" where
  "ds1821_start_convert B s =
     (let (presence, s1) = reset B s
      in if \<not> presence then (None, s1)
         else (Some (), ow_write_byte B DS1821_CMD_START_CONVERT s1))"

definition ds1821_read_th :: "'s bitbus \<Rightarrow> 's \<Rightarrow> u8 option \<times> 's" where
  "ds1821_read_th B s =
     (let (presence, s1) = reset B s
      in if \<not> presence then (None, s1)
         else (let s2 = ow_write_byte B DS1821_CMD_READ_TH s1;
                   (v, s3) = ow_read_byte B s2
               in (Some v, s3)))"

definition ds1821_read_tl :: "'s bitbus \<Rightarrow> 's \<Rightarrow> u8 option \<times> 's" where
  "ds1821_read_tl B s =
     (let (presence, s1) = reset B s
      in if \<not> presence then (None, s1)
         else (let s2 = ow_write_byte B DS1821_CMD_READ_TL s1;
                   (v, s3) = ow_read_byte B s2
               in (Some v, s3)))"

definition ds1821_write_th :: "'s bitbus \<Rightarrow> u8 \<Rightarrow> 's \<Rightarrow> unit option \<times> 's" where
  "ds1821_write_th B v s =
     (let (presence, s1) = reset B s
      in if \<not> presence then (None, s1)
         else (let s2 = ow_write_byte B DS1821_CMD_WRITE_TH s1;
                   s3 = ow_write_byte B v s2;
                   s4 = release B s3;
                   s5 = sleep_us B 200000 s4
               in (Some (), s5)))"

definition ds1821_write_tl :: "'s bitbus \<Rightarrow> u8 \<Rightarrow> 's \<Rightarrow> unit option \<times> 's" where
  "ds1821_write_tl B v s =
     (let (presence, s1) = reset B s
      in if \<not> presence then (None, s1)
         else (let s2 = ow_write_byte B DS1821_CMD_WRITE_TL s1;
                   s3 = ow_write_byte B v s2;
                   s4 = release B s3;
                   s5 = sleep_us B 200000 s4
               in (Some (), s5)))"

subsection \<open>A recording bus\<close>

text \<open>
  A recording bus for the byte codec: \<open>write_bit\<close> appends the bit to \<open>sent\<close>, \<open>read_bit\<close>
  takes the next bit of \<open>pending\<close> (an idle line reads 1).
\<close>

record wire =
  sent :: "bool list"
  pending :: "bool list"

definition wire_read_bit :: "wire \<Rightarrow> bool \<times> wire" where
  "wire_read_bit s = (case pending s of [] \<Rightarrow> (True, s) | b # bs \<Rightarrow> (b, s\<lparr>pending := bs\<rparr>))"

definition wire_bus :: "wire bitbus" where
  "wire_bus =
     \<lparr>reset = (\<lambda>s. (True, s)), write_bit = (\<lambda>b s. s\<lparr>sent := sent s @ [b]\<rparr>),
      read_bit = wire_read_bit, release = (\<lambda>s. s), sleep_us = (\<lambda>us s. s)\<rparr>"

section \<open>ROM layer: identity read and discovery\<close>

text \<open>\<^verbatim>\<open>for (int i = 0; i < 8; i++) rom[i] = ow_read_byte();\<close>\<close>

function read_rom_loop :: "'s bitbus \<Rightarrow> nat \<Rightarrow> u8 list \<Rightarrow> 's \<Rightarrow> u8 list \<times> 's" where
  "read_rom_loop B i rom s =
     (if i < 8 then
        (let (v, s1) = ow_read_byte B s
         in read_rom_loop B (i + 1) (rom[i := v]) s1)
      else (rom, s))"
  by pat_completeness auto
termination
  by (relation "measure (\<lambda>(B, i, rom, s). 8 - i)") auto

declare read_rom_loop.simps [simp del]

text \<open>The caller's buffer \<open>rom[8]\<close> is uninitialised; the model starts it at zero.\<close>

definition ow_read_rom :: "'s bitbus \<Rightarrow> 's \<Rightarrow> u8 list option \<times> 's" where
  "ow_read_rom B s =
     (let (presence, s1) = reset B s
      in if \<not> presence then (None, s1)
         else (let s2 = ow_write_byte B OW_CMD_READ_ROM s1;
                   (rom, s3) = read_rom_loop B 0 (replicate 8 0) s2
               in (Some rom, s3)))"

text \<open>
  \<open>ow_search_rom\<close>, the loop over the 64 bit positions of one pass. The result is the
  \<open>done\<close> flag (set when both response bits read 1), the ROM buffer, \<open>new_discrepancy\<close> and
  the bus state. \<open>bit_mask\<close> is \<open>1 << (bit_pos % 8)\<close>; the buffer byte is set with
  \<open>|= bit_mask\<close> or cleared with \<open>&= ~bit_mask\<close>.
\<close>

function search_bits ::
  "'s bitbus \<Rightarrow> int \<Rightarrow> nat \<Rightarrow> u8 list \<Rightarrow> int \<Rightarrow> 's \<Rightarrow> bool \<times> u8 list \<times> int \<times> 's" where
  "search_bits B last_discrepancy bit_pos rom new_discrepancy s =
     (if bit_pos < 64 then
        (let byte_idx = bit_pos div 8;
             bit_mask = (push_bit (bit_pos mod 8) 1 :: u8);
             (id_bit, s1) = read_bit B s;
             (cmp_bit, s2) = read_bit B s1
         in if id_bit \<and> cmp_bit then (True, rom, new_discrepancy, s2)
            else
              (let (dir, nd) =
                     (if id_bit \<noteq> cmp_bit then (id_bit, new_discrepancy)
                      else if int bit_pos = last_discrepancy then (True, new_discrepancy)
                      else if int bit_pos > last_discrepancy then (False, int bit_pos)
                      else (let dir = (rom ! byte_idx AND bit_mask \<noteq> 0)
                            in (dir, if \<not> dir then int bit_pos else new_discrepancy)));
                   rom1 = rom[byte_idx :=
                            (if dir then rom ! byte_idx OR bit_mask
                             else rom ! byte_idx AND NOT bit_mask)];
                   s3 = write_bit B dir s2
               in search_bits B last_discrepancy (bit_pos + 1) rom1 nd s3))
      else (False, rom, new_discrepancy, s))"
  by pat_completeness auto
termination
  by (relation "measure (\<lambda>(B, ld, bit_pos, rom, nd, s). 64 - bit_pos)") auto

declare search_bits.simps [simp del]

text \<open>
  The outer \<open>while (!done && device_count < max_devices)\<close> loop. \<open>roms[device_count]\<close> is
  always the first unused row of the caller's array, so the rows written so far are a
  list that grows at its end; the function returns them with \<open>device_count\<close>.
\<close>

function search_loop ::
  "'s bitbus \<Rightarrow> int \<Rightarrow> nat \<Rightarrow> int \<Rightarrow> bool \<Rightarrow> u8 list \<Rightarrow> u8 list list \<Rightarrow> 's
     \<Rightarrow> u8 list list \<times> nat \<times> 's" where
  "search_loop B max_devices device_count last_discrepancy done rom roms s =
     (if \<not> done \<and> int device_count < max_devices then
        (let (presence, s1) = reset B s
         in if \<not> presence then (roms, device_count, s1)
            else
              (let s2 = ow_write_byte B OW_CMD_SEARCH_ROM s1;
                   (done1, rom1, new_discrepancy, s3) = search_bits B last_discrepancy 0 rom (- 1) s2;
                   roms1 = (if \<not> done1 then roms @ [rom1] else roms);
                   device_count1 = (if \<not> done1 then device_count + 1 else device_count);
                   done2 = (done1 \<or> new_discrepancy < 0)
               in search_loop B max_devices device_count1 new_discrepancy done2 rom1 roms1 s3))
      else (roms, device_count, s))"
  by pat_completeness auto
termination
  by (relation "measure (\<lambda>(B, max_devices, device_count, ld, done, rom, roms, s).
        if done then 0 else nat (max_devices - int device_count) + 1)")
     (auto split: if_splits)

declare search_loop.simps [simp del]

definition ow_search_rom :: "'s bitbus \<Rightarrow> int \<Rightarrow> 's \<Rightarrow> u8 list list \<times> nat \<times> 's" where
  "ow_search_rom B max_devices s = search_loop B max_devices 0 (- 1) False (replicate 8 0) [] s"

subsection \<open>A simulated bus of identity-addressable devices\<close>

text \<open>
  The devices follow the 1-Wire search protocol. A reset selects all of them and is
  answered with a presence pulse when there is one. They then take eight command bits;
  any command but Search ROM deselects them. In a search each selected device answers the
  first read slot with its bit at the current position and the second with the
  complement; the line is the wired AND of the answers, and an idle line reads 1. The
  following write slot deselects the devices whose bit differs and moves to the next
  position. Bit \<open>p\<close> of a code is bit \<open>p mod 8\<close> of byte \<open>p div 8\<close>.
\<close>

definition rom_bit :: "u8 list \<Rightarrow> nat \<Rightarrow> bool" where
  "rom_bit d p = bit (d ! (p div 8)) (p mod 8)"

record sim =
  devices :: "u8 list list"
  active :: "u8 list list"
  cmdbits :: "bool list"
  pos :: nat
  cmp_next :: bool

definition sim_init :: "u8 list list \<Rightarrow> sim" where
  "sim_init devs = \<lparr>devices = devs, active = [], cmdbits = [], pos = 0, cmp_next = False\<rparr>"

definition sim_reset :: "sim \<Rightarrow> bool \<times> sim" where
  "sim_reset s =
     (devices s \<noteq> [], s\<lparr>active := devices s, cmdbits := [], pos := 0, cmp_next := False\<rparr>)"

definition search_rom_bits :: "bool list" where
  "search_rom_bits = [False, False, False, False, True, True, True, True]"

definition sim_write_bit :: "bool \<Rightarrow> sim \<Rightarrow> sim" where
  "sim_write_bit b s =
     (if length (cmdbits s) < 8 then
        (let cb = cmdbits s @ [b]
         in s\<lparr>cmdbits := cb,
              active := (if length cb = 8 \<and> cb \<noteq> search_rom_bits then [] else active s)\<rparr>)
      else s\<lparr>active := filter (\<lambda>d. rom_bit d (pos s) = b) (active s),
             pos := pos s + 1, cmp_next := False\<rparr>)"

definition sim_read_bit :: "sim \<Rightarrow> bool \<times> sim" where
  "sim_read_bit s =
     (if length (cmdbits s) < 8 \<or> 64 \<le> pos s then (True, s)
      else if \<not> cmp_next s then (list_all (\<lambda>d. rom_bit d (pos s)) (active s), s\<lparr>cmp_next := True\<rparr>)
      else (list_all (\<lambda>d. \<not> rom_bit d (pos s)) (active s), s\<lparr>cmp_next := False\<rparr>))"

definition sim_bus :: "sim bitbus" where
  "sim_bus =
     \<lparr>reset = sim_reset, write_bit = sim_write_bit, read_bit = sim_read_bit,
      release = (\<lambda>s. s), sleep_us = (\<lambda>us s. s)\<rparr>"

section \<open>Action orchestrator\<close>

text \<open>
  The actions run on the GPIO bus. They return the C result (\<open>0\<close> or \<open>-1\<close>) with the new
  world. Of the program's output only the machine-readable \<open>key=value\<close> lines, the
  millidegree line of the temperature report and the diagnostics are recorded (in
  \<open>diag\<close>); banners, the formatted floating-point value and the other report text are not
  modelled.
\<close>

definition flag :: "u8 \<Rightarrow> u8 \<Rightarrow> int" where
  "flag status m = (if status AND m \<noteq> 0 then 1 else 0)"

definition read_tout :: "config \<Rightarrow> world \<Rightarrow> int \<times> world" where
  "read_tout c w =
     (if \<not> read_tout_flag c then (- 1, w)
      else (let w1 = gpioSetMode (gpio_pin c) PI_INPUT w;
                w2 = gpioSetPullUpDown (gpio_pin c) PI_PUD_OFF w1;
                (v, w3) = gpioRead (gpio_pin c) w2
            in (if v then 1 else 0, w3)))"

text \<open>
  \<^verbatim>\<open>int8_t th = 0, tl = 0;
  int have = (ds1821_read_th(&th) == 0 && ds1821_read_tl(&tl) == 0);\<close>
\<close>

definition read_thresholds :: "'s bitbus \<Rightarrow> 's \<Rightarrow> (bool \<times> u8 \<times> u8) \<times> 's" where
  "read_thresholds B s =
     (let (rh, s1) = ds1821_read_th B s
      in case rh of
           None \<Rightarrow> ((False, 0, 0), s1)
         | Some h \<Rightarrow>
             (let (rl, s2) = ds1821_read_tl B s1
              in case rl of
                   None \<Rightarrow> ((False, h, 0), s2)
                 | Some l \<Rightarrow> ((True, h, l), s2)))"

definition say_thresholds :: "bool \<times> u8 \<times> u8 \<Rightarrow> world \<Rightarrow> world" where
  "say_thresholds t w =
     (case t of (have, h, l) \<Rightarrow>
        if have then say (KeyVal ''tl'' (sint l)) (say (KeyVal ''th'' (sint h)) w) else w)"

definition say_tout :: "int \<Rightarrow> world \<Rightarrow> world" where
  "say_tout tout w = (if 0 \<le> tout then say (KeyVal ''tout'' tout) w else w)"

definition action_probe :: "config \<Rightarrow> world \<Rightarrow> int \<times> world" where
  "action_probe c w =
     (let (rs, w1) = ds1821_read_status_reg (gpio_bus c) w
      in case rs of
           None \<Rightarrow> (- 1, w1)
         | Some status \<Rightarrow>
             (let (t, w2) = read_thresholds (gpio_bus c) w1;
                  (tout, w3) = read_tout c w2;
                  w4 = (if quiet c then
                          say_tout tout (say_thresholds t
                            (say (KeyVal ''oneshot'' (flag status DS1821_STATUS_1SHOT))
                            (say (KeyVal ''nvb'' (flag status DS1821_STATUS_NVB))
                            (say (KeyVal ''tlf'' (flag status DS1821_STATUS_TLF))
                            (say (KeyVal ''thf'' (flag status DS1821_STATUS_THF))
                            (say (KeyVal ''done'' (flag status DS1821_STATUS_DONE))
                            (say (KeyVal ''status'' (uint status)) w3)))))))
                        else w3)
              in (0, w4)))"

text \<open>
  The measurement sequence shared by \<open>action_read_temp\<close> and \<open>action_status\<close>: start a
  conversion, wait one second, read status, temperature, counter and slope. Each failing
  step returns \<open>-1\<close> at once.
\<close>

definition measure_seq ::
  "config \<Rightarrow> world \<Rightarrow> (u8 \<times> u8 \<times> u8 \<times> u8) option \<times> world" where
  "measure_seq c w =
     (let (r0, w1) = ds1821_start_convert (gpio_bus c) w
      in case r0 of
           None \<Rightarrow> (None, w1)
         | Some _ \<Rightarrow>
             (let w2 = usleep 1000000 w1;
                  (r1, w3) = ds1821_read_status_reg (gpio_bus c) w2
              in case r1 of
                   None \<Rightarrow> (None, w3)
                 | Some status \<Rightarrow>
                     (let (r2, w4) = ds1821_read_temperature (gpio_bus c) w3
                      in case r2 of
                           None \<Rightarrow> (None, w4)
                         | Some temp \<Rightarrow>
                             (let (r3, w5) = ds1821_read_counter (gpio_bus c) w4
                              in case r3 of
                                   None \<Rightarrow> (None, w5)
                                 | Some count_remain \<Rightarrow>
                                     (let (r4, w6) = ds1821_read_slope (gpio_bus c) w5
                                      in case r4 of
                                           None \<Rightarrow> (None, w6)
                                         | Some count_per_c \<Rightarrow>
                                             (Some (status, temp, count_remain, count_per_c),
                                              w6))))))"

definition action_read_temp :: "config \<Rightarrow> world \<Rightarrow> int \<times> world" where
  "action_read_temp c w =
     (let (r, w1) = measure_seq c w
      in case r of
           None \<Rightarrow> (- 1, w1)
         | Some (status, temp, count_remain, count_per_c) \<Rightarrow>
             (let md = millideg temp count_remain count_per_c;
                  (tout, w2) = read_tout c w1;
                  w3 = (if quiet c then w2 else say (Temperature_report (sint md)) w2)
              in (0, w3)))"

definition action_status :: "config \<Rightarrow> world \<Rightarrow> int \<times> world" where
  "action_status c w =
     (let (r, w1) = measure_seq c w
      in case r of
           None \<Rightarrow> (- 1, w1)
         | Some (status, temp, count_remain, count_per_c) \<Rightarrow>
             (let md = millideg temp count_remain count_per_c;
                  (t, w2) = read_thresholds (gpio_bus c) w1;
                  (tout, w3) = read_tout c w2;
                  w4 = say_tout tout (say_thresholds t
                         (say (KeyVal ''tlf'' (flag status DS1821_STATUS_TLF))
                         (say (KeyVal ''thf'' (flag status DS1821_STATUS_THF))
                         (say (KeyVal ''temperature'' (sint md)) w3))))
              in (0, w4)))"

text \<open>
  \<^verbatim>\<open>if (ds1821_read_th(&cur_th) < 0 || ds1821_read_tl(&cur_tl) < 0) return -1;\<close>
\<close>

definition read_both :: "'s bitbus \<Rightarrow> 's \<Rightarrow> (u8 \<times> u8) option \<times> 's" where
  "read_both B s =
     (let (rh, s1) = ds1821_read_th B s
      in case rh of
           None \<Rightarrow> (None, s1)
         | Some h \<Rightarrow>
             (let (rl, s2) = ds1821_read_tl B s1
              in case rl of None \<Rightarrow> (None, s2) | Some l \<Rightarrow> (Some (h, l), s2)))"

definition action_set_thresholds ::
  "config \<Rightarrow> bool \<Rightarrow> bool \<Rightarrow> u8 \<Rightarrow> u8 \<Rightarrow> world \<Rightarrow> int \<times> world" where
  "action_set_thresholds c set_th set_tl new_th new_tl w =
     (let (r0, w1) = read_both (gpio_bus c) w
      in case r0 of
           None \<Rightarrow> (- 1, w1)
         | Some _ \<Rightarrow>
             (let (r1, w2) = (if set_th then ds1821_write_th (gpio_bus c) new_th w1
                              else (Some (), w1))
              in case r1 of
                   None \<Rightarrow> (- 1, w2)
                 | Some _ \<Rightarrow>
                     (let (r2, w3) = (if set_tl then ds1821_write_tl (gpio_bus c) new_tl w2
                                      else (Some (), w2))
                      in case r2 of
                           None \<Rightarrow> (- 1, w3)
                         | Some _ \<Rightarrow>
                             (let (r3, w4) = read_both (gpio_bus c) w3
                              in case r3 of
                                   None \<Rightarrow> (- 1, w4)
                                 | Some (cur_th, cur_tl) \<Rightarrow>
                                     (0, if sint cur_th \<le> sint cur_tl
                                         then say Warn_TL_ge_TH w4 else w4)))))"

text \<open>
  The mode switch. A failing verification read is ignored (its result only guards a
  \<open>printf\<close>); a failing write returns \<open>-1\<close>.
\<close>

definition action_set_oneshot :: "'s bitbus \<Rightarrow> 's \<Rightarrow> int \<times> 's" where
  "action_set_oneshot B s =
     (let (r0, s1) = ds1821_read_status_reg B s
      in case r0 of
           None \<Rightarrow> (- 1, s1)
         | Some _ \<Rightarrow>
             (let new_status = DS1821_STATUS_1SHOT;
                  (r1, s2) = ds1821_write_status_reg B new_status s1
              in case r1 of
                   None \<Rightarrow> (- 1, s2)
                 | Some _ \<Rightarrow>
                     (let (v1, s3) = ds1821_read_status_reg B s2;
                          (r2, s4) = ds1821_write_status_skiprom B new_status s3
                      in case r2 of
                           None \<Rightarrow> (- 1, s4)
                         | Some _ \<Rightarrow>
                             (let (v2, s5) = ds1821_read_status_skiprom B s4;
                                  (r3, s6) = ds1821_write_status_reg B new_status s5
                              in case r3 of
                                   None \<Rightarrow> (- 1, s6)
                                 | Some _ \<Rightarrow>
                                     (let (v3, s7) = ds1821_read_status_reg B s6;
                                          (v4, s8) = ds1821_read_status_skiprom B s7
                                      in (0, s8))))))"

definition action_scan :: "config \<Rightarrow> world \<Rightarrow> int \<times> world" where
  "action_scan c w =
     (let (presence, w1) = ow_reset c w
      in if \<not> presence then (- 1, w1)
         else
           (let (rom, w2) = ow_read_rom (gpio_bus c) w1;
                (found_roms, count, w3) = ow_search_rom (gpio_bus c) 16 w2;
                (rs, w4) = ds1821_read_status_reg (gpio_bus c) w3;
                w5 = (case rs of None \<Rightarrow> w4 | Some _ \<Rightarrow> snd (read_thresholds (gpio_bus c) w4))
            in (0, w5)))"

definition power_cycle_ds1821 :: "config \<Rightarrow> world \<Rightarrow> int \<times> world" where
  "power_cycle_ds1821 c w =
     (if power_pin c < 0 then (- 1, if quiet c then w else say No_power_gpio w)
      else (let w1 = gpioSetMode (power_pin c) PI_OUTPUT w;
                w2 = gpioWrite (power_pin c) False w1;
                w3 = usleep 500000 w2;
                w4 = gpioWrite (power_pin c) True w3;
                w5 = usleep 500000 w4
            in (0, w5)))"

section \<open>Command line and \<open>main\<close>\<close>

text \<open>
  \<open>atoi\<close> of the C library, which is \<open>(int)strtol(s, NULL, 10)\<close>. \<open>strtol\<close> skips leading
  white space, takes an optional sign and then the decimal digits up to the first other
  character; \<open>numeral_val\<close> is the integer they denote. The result of \<open>strtol\<close> is a \<open>long\<close>,
  64 bits wide on the target: a numeral above \<open>LONG_MAX\<close> gives \<open>LONG_MAX\<close> and one below
  \<open>LONG_MIN\<close> gives \<open>LONG_MIN\<close>. The conversion to \<open>int\<close> keeps the low 32 bits.
\<close>

definition is_space :: "char \<Rightarrow> bool" where
  "is_space ch = (ch \<in> set [CHR '' '', CHR 0x09, CHR 0x0A, CHR 0x0B, CHR 0x0C, CHR 0x0D])"

definition is_digit :: "char \<Rightarrow> bool" where
  "is_digit ch = (48 \<le> (of_char ch :: nat) \<and> (of_char ch :: nat) \<le> 57)"

fun digits_val :: "int \<Rightarrow> string \<Rightarrow> int" where
  "digits_val acc [] = acc"
| "digits_val acc (ch # cs) =
     (if is_digit ch then digits_val (acc * 10 + (int (of_char ch) - 48)) cs else acc)"

fun numeral_val :: "string \<Rightarrow> int" where
  "numeral_val [] = 0"
| "numeral_val (ch # cs) =
     (if is_space ch then numeral_val cs
      else if ch = CHR ''-'' then - digits_val 0 cs
      else if ch = CHR ''+'' then digits_val 0 cs
      else digits_val 0 (ch # cs))"

definition LONG_MAX :: int where
  "LONG_MAX = 2 ^ 63 - 1"

definition LONG_MIN :: int where
  "LONG_MIN = - (2 ^ 63)"

definition strtol :: "string \<Rightarrow> int" where
  "strtol s =
     (let v = numeral_val s
      in if LONG_MAX < v then LONG_MAX else if v < LONG_MIN then LONG_MIN else v)"

definition atoi :: "string \<Rightarrow> i32" where
  "atoi s = word_of_int (strtol s)"

text \<open>The variables of \<open>main\<close> that the argument loop sets, next to the configuration.\<close>

record args =
  cfg :: config
  action :: "string option"
  arg_th :: u8
  arg_tl :: u8
  has_th :: bool
  has_tl :: bool

definition init_args :: args where
  "init_args =
     \<lparr>cfg = default_config, action = None, arg_th = 0, arg_tl = 0,
      has_th = False, has_tl = False\<rparr>"

definition not_dash :: "string \<Rightarrow> bool" where
  "not_dash a = (case a of [] \<Rightarrow> True | ch # _ \<Rightarrow> ch \<noteq> CHR ''-'')"

text \<open>
  The argument loop over \<open>argv[1..]\<close>. \<open>Inl\<close> is an early \<open>return\<close> with its exit code and
  message. \<open>gpio_pin\<close> and \<open>power_pin\<close> are \<open>int\<close> variables and take the value of
  \<open>atoi\<close>; \<open>(int8_t)atoi(...)\<close> keeps its low eight bits.
\<close>

fun parse_args :: "string list \<Rightarrow> args \<Rightarrow> (int \<times> msg list) + args" where
  "parse_args [] st = Inr st"
| "parse_args (a # rest) st =
     (if a = ''--gpio'' \<and> rest \<noteq> [] then
        parse_args (tl rest) (st\<lparr>cfg := (cfg st)\<lparr>gpio_pin := sint (atoi (hd rest))\<rparr>\<rparr>)
      else if a = ''--power-gpio'' \<and> rest \<noteq> [] then
        parse_args (tl rest) (st\<lparr>cfg := (cfg st)\<lparr>power_pin := sint (atoi (hd rest))\<rparr>\<rparr>)
      else if a = ''--read-tout'' then
        parse_args rest (st\<lparr>cfg := (cfg st)\<lparr>read_tout_flag := True\<rparr>\<rparr>)
      else if a = ''--verbose'' \<or> a = ''-v'' then
        parse_args rest (st\<lparr>cfg := (cfg st)\<lparr>verbose := True\<rparr>\<rparr>)
      else if a = ''--quick'' \<or> a = ''-q'' then
        parse_args rest (st\<lparr>cfg := (cfg st)\<lparr>quiet := True\<rparr>\<rparr>)
      else if a = ''--help'' \<or> a = ''-h'' then Inl (0, [Usage])
      else if a = ''set-th'' \<and> rest \<noteq> [] then
        parse_args (tl rest)
          (st\<lparr>action := Some ''set-th'', arg_th := ucast (atoi (hd rest)), has_th := True\<rparr>)
      else if a = ''set-tl'' \<and> rest \<noteq> [] then
        parse_args (tl rest)
          (st\<lparr>action := Some ''set-tl'', arg_tl := ucast (atoi (hd rest)), has_tl := True\<rparr>)
      else if not_dash a then parse_args rest (st\<lparr>action := Some a\<rparr>)
      else Inl (1, [Unknown_option a, Usage]))"

text \<open>The dispatch on the action name, after the bus has been set up.\<close>

definition dispatch :: "args \<Rightarrow> string \<Rightarrow> config \<Rightarrow> world \<Rightarrow> int \<times> world" where
  "dispatch st act c w =
     (let do_fix = (act = ''fix'')
      in if act = ''scan'' then action_scan c w
         else if act = ''probe'' then action_probe c w
         else if act = ''status'' then action_status c w
         else if act = ''temp'' then action_read_temp c w
         else if has_th st \<or> has_tl st then
           action_set_thresholds c (has_th st) (has_tl st) (arg_th st) (arg_tl st) w
         else if act = ''set-oneshot'' \<or> do_fix then
           (let (ret, w1) = action_probe c w;
                (ret1, w2) = (if ret = 0 then action_set_oneshot (gpio_bus c) w1 else (ret, w1))
            in if do_fix \<and> ret1 = 0 then power_cycle_ds1821 c w2 else (ret1, w2))
         else (1, say (Unknown_action act) w))"

text \<open>
  \<open>main\<close>. \<open>is_root\<close> is \<open>geteuid() == 0\<close> and \<open>init_ok\<close> is \<open>gpioInitialise() >= 0\<close>.
  \<open>gpioTerminate\<close> and the shell command of \<open>persist_power_pin\<close> run after the last bus
  operation and do not change the exit code; they are not modelled.
\<close>

definition main :: "string list \<Rightarrow> bool \<Rightarrow> bool \<Rightarrow> world \<Rightarrow> int \<times> world" where
  "main argv is_root init_ok w =
     (case parse_args (tl argv) init_args of
        Inl (code, ms) \<Rightarrow> (code, w\<lparr>diag := diag w @ ms\<rparr>)
      | Inr st \<Rightarrow>
          (case action st of
             None \<Rightarrow> (1, say Usage w)
           | Some act \<Rightarrow>
               if \<not> is_root then (1, say Not_root w)
               else
                 (let c = (if act = ''status'' then (cfg st)\<lparr>quiet := True\<rparr> else cfg st)
                  in if \<not> init_ok then (1, say Init_failed w)
                     else
                       (let w1 = (if 0 \<le> power_pin c
                                  then gpioWrite (power_pin c) True
                                         (gpioSetMode (power_pin c) PI_OUTPUT w)
                                  else w);
                            w2 = ow_release c w1;
                            w3 = (if 0 \<le> power_pin c then usleep 500000 w2
                                  else gpioDelay 1000 w2);
                            (ret, w4) = dispatch st act c w3
                        in (if ret < 0 then 1 else 0, w4)))))"

text \<open>A world in which no device answers: every sample of the line reads high.\<close>

definition idle_world :: world where
  "idle_world =
     \<lparr>pins = (\<lambda>p. \<lparr>pmode = PI_INPUT, ppud = PI_PUD_OFF, plevel = False\<rparr>),
      trace = [], line = (\<lambda>k. True), nsample = 0, diag = []\<rparr>"

text \<open>A world in which the line reads low at every sample: a device answers every reset.\<close>

definition present_world :: world where
  "present_world = idle_world\<lparr>line := (\<lambda>k. False)\<rparr>"

section \<open>Expected GPIO activity\<close>

text \<open>
  The pin activity of the bit-level operations as event lists, after section 4.2 of the
  specification: \<open>v\<close> is the level sampled, \<open>b\<close> the bit written.
\<close>

definition ev_release :: "config \<Rightarrow> gpio_event list" where
  "ev_release c = [SetMode (gpio_pin c) PI_INPUT, SetPullUpDown (gpio_pin c) PI_PUD_UP]"

definition ev_drive_low :: "config \<Rightarrow> gpio_event list" where
  "ev_drive_low c = [SetMode (gpio_pin c) PI_OUTPUT, GpioWrite (gpio_pin c) False]"

definition ev_reset :: "config \<Rightarrow> bool \<Rightarrow> gpio_event list" where
  "ev_reset c v =
     ev_drive_low c @ [GpioDelay 480] @ ev_release c
       @ [GpioDelay 70, GpioRead (gpio_pin c) v, GpioDelay 410]"

definition ev_write_bit :: "config \<Rightarrow> bool \<Rightarrow> gpio_event list" where
  "ev_write_bit c b =
     ev_drive_low c @ [GpioDelay (if b then 6 else 60)] @ ev_release c
       @ [GpioDelay (if b then 64 else 10), GpioDelay 2]"

definition ev_read_bit :: "config \<Rightarrow> bool \<Rightarrow> gpio_event list" where
  "ev_read_bit c v =
     ev_drive_low c @ [GpioDelay 6] @ ev_release c
       @ [GpioDelay 9, GpioRead (gpio_pin c) v, GpioDelay 55, GpioDelay 2]"

definition ev_write_byte :: "config \<Rightarrow> u8 \<Rightarrow> gpio_event list" where
  "ev_write_byte c v = concat (map (\<lambda>k. ev_write_bit c (bit v k)) [0..<8])"

definition ev_read_byte :: "config \<Rightarrow> bool list \<Rightarrow> gpio_event list" where
  "ev_read_byte c vs = concat (map (ev_read_bit c) vs)"

text \<open>The byte whose bits, least significant first, are the given list.\<close>

definition byte_of_bits :: "bool list \<Rightarrow> u8" where
  "byte_of_bits bs = foldr (\<lambda>b acc. (if b then 1 else 0) OR push_bit 1 acc) bs 0"

text \<open>The next \<open>n\<close> samples of the line, from the \<open>k\<close>-th after the current one.\<close>

definition samples :: "world \<Rightarrow> nat \<Rightarrow> nat \<Rightarrow> bool list" where
  "samples w k n = map (\<lambda>j. line w (nsample w + k + j)) [0..<n]"

text \<open>The data pin at rest: input, pull-up enabled, output latch low.\<close>

definition idle_pin :: pin_state where
  "idle_pin = \<lparr>pmode = PI_INPUT, ppud = PI_PUD_UP, plevel = False\<rparr>"

text \<open>
  The world after bus activity on the data pin: the events \<open>evs\<close> appended to the trace,
  \<open>k\<close> more samples taken, the pin at rest.
\<close>

definition after :: "config \<Rightarrow> gpio_event list \<Rightarrow> nat \<Rightarrow> world \<Rightarrow> world" where
  "after c evs k w =
     w\<lparr>pins := (pins w)(gpio_pin c := idle_pin), trace := trace w @ evs,
       nsample := nsample w + k\<rparr>"


text \<open>
  The two shapes shared by the single-byte operations: reset, function code, one byte
  read; and reset, function code, one byte written, release and wait.
\<close>

definition read_cmd :: "'s bitbus \<Rightarrow> u8 \<Rightarrow> 's \<Rightarrow> u8 option \<times> 's" where
  "read_cmd B cmd s =
     (let (presence, s1) = reset B s
      in if \<not> presence then (None, s1)
         else (let s2 = ow_write_byte B cmd s1;
                   (v, s3) = ow_read_byte B s2
               in (Some v, s3)))"

definition write_cmd :: "'s bitbus \<Rightarrow> u8 \<Rightarrow> u8 \<Rightarrow> 's \<Rightarrow> unit option \<times> 's" where
  "write_cmd B cmd v s =
     (let (presence, s1) = reset B s
      in if \<not> presence then (None, s1)
         else (let s2 = ow_write_byte B cmd s1;
                   s3 = ow_write_byte B v s2;
                   s4 = release B s3;
                   s5 = sleep_us B 200000 s4
               in (Some (), s5)))"

text \<open>The twelve operations of the device command layer, and running one of them.\<close>

datatype cmd_op =
    Read_status
  | Write_status u8
  | Write_status_skiprom u8
  | Read_status_skiprom
  | Read_temperature
  | Read_counter
  | Read_slope
  | Start_convert
  | Read_th
  | Read_tl
  | Write_th u8
  | Write_tl u8

definition succeeded :: "'a option \<times> 's \<Rightarrow> bool \<times> 's" where
  "succeeded r = (fst r \<noteq> None, snd r)"

fun run_op :: "'s bitbus \<Rightarrow> cmd_op \<Rightarrow> 's \<Rightarrow> bool \<times> 's" where
  "run_op B Read_status s = succeeded (ds1821_read_status_reg B s)"
| "run_op B (Write_status v) s = succeeded (ds1821_write_status_reg B v s)"
| "run_op B (Write_status_skiprom v) s = succeeded (ds1821_write_status_skiprom B v s)"
| "run_op B Read_status_skiprom s = succeeded (ds1821_read_status_skiprom B s)"
| "run_op B Read_temperature s = succeeded (ds1821_read_temperature B s)"
| "run_op B Read_counter s = succeeded (ds1821_read_counter B s)"
| "run_op B Read_slope s = succeeded (ds1821_read_slope B s)"
| "run_op B Start_convert s = succeeded (ds1821_start_convert B s)"
| "run_op B Read_th s = succeeded (ds1821_read_th B s)"
| "run_op B Read_tl s = succeeded (ds1821_read_tl B s)"
| "run_op B (Write_th v) s = succeeded (ds1821_write_th B v s)"
| "run_op B (Write_tl v) s = succeeded (ds1821_write_tl B v s)"

text \<open>
  The open-drain condition on the data pin: released (input, pull-up enabled) or driven
  low (output, latch low).
\<close>

definition open_drain :: "config \<Rightarrow> world \<Rightarrow> bool" where
  "open_drain c w =
     (let p = pins w (gpio_pin c)
      in (pmode p = PI_INPUT \<and> ppud p = PI_PUD_UP) \<or> (pmode p = PI_OUTPUT \<and> plevel p = False))"

text \<open>The events that an operation appends to the trace of \<open>w\<close>.\<close>

definition new_events :: "world \<Rightarrow> world \<Rightarrow> gpio_event list" where
  "new_events w w' = drop (length (trace w)) (trace w')"

definition drives_high :: "config \<Rightarrow> gpio_event list \<Rightarrow> bool" where
  "drives_high c evs = (GpioWrite (gpio_pin c) True \<in> set evs)"

text \<open>The pin activity of the four status transactions with a device present.\<close>

definition ev_read_status :: "config \<Rightarrow> bool list \<Rightarrow> gpio_event list" where
  "ev_read_status c vs =
     ev_reset c False @ ev_write_byte c DS1821_CMD_READ_STATUS @ ev_read_byte c vs"

definition ev_write_status :: "config \<Rightarrow> u8 \<Rightarrow> gpio_event list" where
  "ev_write_status c v =
     ev_reset c False @ ev_write_byte c DS1821_CMD_WRITE_STATUS @ ev_write_byte c v
       @ ev_release c @ [USleep 200000]"

definition ev_read_status_skiprom :: "config \<Rightarrow> bool list \<Rightarrow> gpio_event list" where
  "ev_read_status_skiprom c vs =
     ev_reset c False @ ev_write_byte c OW_CMD_SKIP_ROM
       @ ev_write_byte c DS1821_CMD_READ_STATUS @ ev_read_byte c vs"

definition ev_write_status_skiprom :: "config \<Rightarrow> u8 \<Rightarrow> gpio_event list" where
  "ev_write_status_skiprom c v =
     ev_reset c False @ ev_write_byte c OW_CMD_SKIP_ROM
       @ ev_write_byte c DS1821_CMD_WRITE_STATUS @ ev_write_byte c v
       @ ev_release c @ [USleep 200000]"

text \<open>One register read and one register write of the command layer, answered.\<close>

definition ev_read_reg :: "config \<Rightarrow> u8 \<Rightarrow> bool list \<Rightarrow> gpio_event list" where
  "ev_read_reg c cmd vs = ev_reset c False @ ev_write_byte c cmd @ ev_read_byte c vs"

definition ev_write_reg :: "config \<Rightarrow> u8 \<Rightarrow> u8 \<Rightarrow> gpio_event list" where
  "ev_write_reg c cmd v =
     ev_reset c False @ ev_write_byte c cmd @ ev_write_byte c v @ ev_release c @ [USleep 200000]"

text \<open>The decimal text of an integer, as a user types it on the command line.\<close>

definition digit_char :: "nat \<Rightarrow> char" where
  "digit_char d = char_of (48 + d)"

fun decimal_nat :: "nat \<Rightarrow> string" where
  "decimal_nat n =
     (if n < 10 then [digit_char n] else decimal_nat (n div 10) @ [digit_char (n mod 10)])"

declare decimal_nat.simps [simp del]

definition decimal :: "int \<Rightarrow> string" where
  "decimal k = (if k < 0 then CHR ''-'' # decimal_nat (nat (- k)) else decimal_nat (nat k))"

text \<open>
  What the program can observe of the world and what it reports: the line, the number of
  samples taken and the diagnostics. Two runs have the same outcome when they return the
  same result in worlds that agree on these.
\<close>

definition obs_eq :: "world \<Rightarrow> world \<Rightarrow> bool" where
  "obs_eq w w' = (line w = line w' \<and> nsample w = nsample w' \<and> diag w = diag w')"

definition same_outcome :: "'a \<times> world \<Rightarrow> 'a \<times> world \<Rightarrow> bool" where
  "same_outcome r r' = (fst r = fst r' \<and> obs_eq (snd r) (snd r'))"

text \<open>An operation only appends to the trace.\<close>

definition extends_trace :: "world \<Rightarrow> world \<Rightarrow> bool" where
  "extends_trace w w' = (take (length (trace w)) (trace w') = trace w)"

text \<open>An operation keeps the open-drain discipline when it leaves the pin released or
  driven low and none of its events writes a high level to the data pin.\<close>

definition keeps_open_drain :: "config \<Rightarrow> world \<Rightarrow> world \<Rightarrow> bool" where
  "keeps_open_drain c w w' =
     (open_drain c w' \<and> extends_trace w w' \<and> \<not> drives_high c (new_events w w'))"

text \<open>
  The weaker form, for an operation that may do nothing at all (a loop that runs no
  iteration): the data pin is as the operation found it, or released or driven low, and
  none of its events writes a high level to the data pin.
\<close>

definition respects_open_drain :: "config \<Rightarrow> world \<Rightarrow> world \<Rightarrow> bool" where
  "respects_open_drain c w w' =
     ((pins w' (gpio_pin c) = pins w (gpio_pin c) \<or> open_drain c w')
      \<and> extends_trace w w' \<and> \<not> drives_high c (new_events w w'))"

section \<open>Discovery: vocabulary of the correctness argument\<close>

text \<open>Storing the direction bit at position \<open>p\<close> of the ROM buffer.\<close>

definition rom_set :: "u8 list \<Rightarrow> nat \<Rightarrow> bool \<Rightarrow> u8 list" where
  "rom_set rom p dir =
     rom[p div 8 := (if dir then rom ! (p div 8) OR push_bit (p mod 8) 1
                     else rom ! (p div 8) AND NOT (push_bit (p mod 8) 1))]"

text \<open>
  The tie-break at a discrepancy in the words of the specification: from the last
  recorded discrepancy, the position, the bit of the previous pass's code at the position
  and the discrepancy recorded so far in this pass, the branch taken and the discrepancy
  recorded afterwards.
\<close>

definition tie_break :: "int \<Rightarrow> nat \<Rightarrow> bool \<Rightarrow> int \<Rightarrow> bool \<times> int" where
  "tie_break last_discrepancy p prev_bit recorded =
     (if int p = last_discrepancy then (True, recorded)
      else if last_discrepancy < int p then (False, int p)
      else (prev_bit, if prev_bit = False then int p else recorded))"

text \<open>
  Two codes agree below position \<open>p\<close>; \<open>r\<close> precedes \<open>d\<close> with the first difference at \<open>p\<close>
  (there \<open>r\<close> has 0 and \<open>d\<close> has 1); the order of codes by their bits from position 0, with
  0 before 1; a position where \<open>r\<close> took the 0-branch while a device of \<open>D\<close> that agrees
  with it so far has 1.
\<close>

definition agree :: "u8 list \<Rightarrow> u8 list \<Rightarrow> nat \<Rightarrow> bool" where
  "agree d r p = (\<forall>q<p. rom_bit d q = rom_bit r q)"

definition first_diff :: "u8 list \<Rightarrow> u8 list \<Rightarrow> nat \<Rightarrow> bool" where
  "first_diff r d p = (p < 64 \<and> agree d r p \<and> \<not> rom_bit r p \<and> rom_bit d p)"

definition rom_lt :: "u8 list \<Rightarrow> u8 list \<Rightarrow> bool" where
  "rom_lt r d = (\<exists>p. first_diff r d p)"

definition branch :: "u8 list set \<Rightarrow> u8 list \<Rightarrow> nat \<Rightarrow> bool" where
  "branch D r p = (\<exists>d\<in>D. first_diff r d p)"

text \<open>The simulated bus in a search, at position \<open>p\<close> with the devices \<open>A\<close> still selected.\<close>

definition sim_at :: "u8 list list \<Rightarrow> u8 list list \<Rightarrow> nat \<Rightarrow> sim" where
  "sim_at devs A p =
     \<lparr>devices = devs, active = A, cmdbits = search_rom_bits, pos = p, cmp_next = False\<rparr>"

text \<open>
  \<open>recorded D rom p nd\<close>: among the positions below \<open>p\<close>, \<open>nd\<close> is the last one where \<open>rom\<close>
  took the 0-branch at a discrepancy, or \<open>-1\<close> when there is none.
\<close>

definition recorded :: "u8 list set \<Rightarrow> u8 list \<Rightarrow> nat \<Rightarrow> int \<Rightarrow> bool" where
  "recorded D rom p nd =
     ((nd = - 1 \<and> (\<forall>q<p. \<not> branch D rom q))
      \<or> (0 \<le> nd \<and> nat nd < p \<and> branch D rom (nat nd) \<and> (\<forall>q<p. branch D rom q \<longrightarrow> int q \<le> nd)))"

text \<open>
  What a pass may assume of the previous one: either it is the first pass, or the buffer
  holds a device's code \<open>r\<close> and \<open>ld\<close> is its last 0-branch at a discrepancy.
\<close>

definition pass_pre :: "u8 list list \<Rightarrow> int \<Rightarrow> u8 list \<Rightarrow> bool" where
  "pass_pre devs ld r =
     (length r = 8 \<and> (ld = - 1 \<or> (0 \<le> ld \<and> r \<in> set devs \<and> recorded (set devs) r 64 ld)))"

text \<open>The invariant of the pass before position \<open>p\<close>.\<close>

definition pass_inv ::
  "u8 list list \<Rightarrow> int \<Rightarrow> u8 list \<Rightarrow> nat \<Rightarrow> u8 list \<Rightarrow> int \<Rightarrow> u8 list list \<Rightarrow> bool" where
  "pass_inv devs ld r p rom nd A =
     (length rom = 8 \<and> A = filter (\<lambda>d. agree d rom p) devs \<and> A \<noteq> []
      \<and> (\<forall>q. p \<le> q \<longrightarrow> q < 64 \<longrightarrow> rom_bit rom q = rom_bit r q)
      \<and> (\<forall>q<p. int q < ld \<longrightarrow> rom_bit rom q = rom_bit r q)
      \<and> (0 \<le> ld \<and> nat ld < p \<longrightarrow> rom_bit rom (nat ld))
      \<and> (\<forall>q<p. ld < int q \<longrightarrow> rom_bit rom q \<longrightarrow> (\<forall>d\<in>set devs. agree d rom q \<longrightarrow> rom_bit d q))
      \<and> recorded (set devs) rom p nd)"

text \<open>
  The codes still to be found when a pass starts: all of them on the first pass, those
  after the code of the previous pass otherwise.
\<close>

definition remaining :: "u8 list list \<Rightarrow> int \<Rightarrow> u8 list \<Rightarrow> u8 list set" where
  "remaining devs ld r = (if ld < 0 then set devs else {d \<in> set devs. rom_lt r d})"

text \<open>Three identity codes for concrete runs; \<open>dev_a\<close> and \<open>dev_b\<close> differ at bit 0 only.\<close>

definition dev_a :: "u8 list" where
  "dev_a = [0x28, 0x11, 0x22, 0x33, 0x44, 0x55, 0x66, 0x77]"

definition dev_b :: "u8 list" where
  "dev_b = [0x29, 0x11, 0x22, 0x33, 0x44, 0x55, 0x66, 0x77]"

definition dev_c :: "u8 list" where
  "dev_c = [0x10, 0xFF, 0x22, 0x33, 0x44, 0x55, 0x66, 0x01]"


section \<open>Verified properties\<close>

lemmas timing_defs =
  OW_RESET_LOW_US_def OW_RESET_RELEASE_US_def OW_RESET_PRESENCE_US_def
  OW_WRITE1_LOW_US_def OW_WRITE1_RELEASE_US_def OW_WRITE0_LOW_US_def
  OW_WRITE0_RELEASE_US_def OW_READ_LOW_US_def OW_READ_SAMPLE_US_def
  OW_READ_SLOT_US_def OW_RECOVERY_US_def

lemmas cmd_defs =
  DS1821_CMD_START_CONVERT_def DS1821_CMD_READ_TEMP_def DS1821_CMD_READ_COUNTER_def
  DS1821_CMD_READ_SLOPE_def DS1821_CMD_READ_TH_def DS1821_CMD_READ_TL_def
  DS1821_CMD_WRITE_TH_def DS1821_CMD_WRITE_TL_def DS1821_CMD_READ_STATUS_def
  DS1821_CMD_WRITE_STATUS_def OW_CMD_READ_ROM_def OW_CMD_SKIP_ROM_def OW_CMD_SEARCH_ROM_def

subsection \<open>Checksum\<close>




text \<open>The reference vector of the 1-Wire CRC: the ROM code \<open>02 1C B8 01 00 00 00\<close> has CRC \<open>A2\<close>.\<close>

lemma crc_reference_vector: "ow_crc8 [0x02, 0x1C, 0xB8, 0x01, 0, 0, 0] 7 = Some 0xA2"
  by code_simp

subsection \<open>Temperature derivation\<close>

lemma sint_i8_bounds: "- 128 \<le> sint (T :: u8) \<and> sint T \<le> 127"
  using sint_ge [of T] sint_lt [of T] by simp

lemma uint_u8_bounds: "0 \<le> uint (R :: u8) \<and> uint R \<le> 255"
  using uint_lt2p [of R] by simp
lemma sint_int_of_i8: "sint (int_of_i8 T) = sint T"
  by (simp add: int_of_i8_def sint_up_scast is_up)

lemma sint_int_of_u8: "sint (int_of_u8 T) = uint T"
proof -
  have "signed_take_bit 31 (uint T) = uint T"
  proof (rule signed_take_bit_int_eq_self)
    have "(- (2 ^ 31) :: int) \<le> 0" by simp
    also have "0 \<le> uint T" by simp
    finally show "- (2 ^ 31) \<le> uint T" .
    show "uint T < 2 ^ 31" using uint_u8_bounds [of T] by simp
  qed
  then show ?thesis
    by (simp add: int_of_u8_def signed_ucast_eq)
qed

lemma sdiv_abs_le:
  fixes a c :: int
  assumes "0 < c"
  shows "\<bar>a sdiv c\<bar> \<le> \<bar>a\<bar>"
proof -
  have nn: "0 \<le> \<bar>a\<bar> div c"
    using assms by (simp add: pos_imp_zdiv_nonneg_iff)
  have "\<bar>a sdiv c\<bar> = \<bar>a\<bar> div c"
    using assms nn by (cases "a = 0") (simp_all add: signed_divide_int_def abs_mult abs_sgn_eq)
  also have "\<dots> \<le> \<bar>a\<bar> div 1"
    using assms by (intro zdiv_mono2) simp_all
  finally show ?thesis by simp
qed

lemma stb31: "- 2147483648 \<le> k \<Longrightarrow> k \<le> 2147483647 \<Longrightarrow> signed_take_bit 31 k = (k :: int)"
  by (rule signed_take_bit_int_eq_self) simp_all

text \<open>
  Claim C3. With \<open>c\<close> the counts-per-degree byte coerced from 0 to 1, the divisor is never
  zero and the 32-bit computation of the millidegree value never overflows: read as a
  signed integer it is \<open>T * 1000 - 250 + ((c - R) * 1000) sdiv c\<close>, where \<open>sdiv\<close> truncates
  towards zero. At \<open>T = 23\<close>, \<open>R = 3\<close>, \<open>C = 16\<close> the value is 23562 and the high-resolution
  reading is 23.5625.
\<close>

theorem millideg_formula:
  "(let c = (if C = 0 then 1 else uint C)
    in c \<noteq> 0 \<and>
       sint (millideg T R C) = sint T * 1000 - 250 + ((c - uint R) * 1000) sdiv c)
   \<and> sint (millideg 23 3 16) = 23562
   \<and> hires 23 3 16 = 23.5625"
proof -
  define c where "c = (if C = 0 then 1 else uint C)"
  define r where "r = uint R"
  define t where "t = sint T"
  have "1 \<le> uint C" if "C \<noteq> 0"
  proof -
    from that have "uint C \<noteq> 0" by (simp add: uint_0_iff)
    with uint_nonnegative [of C] show ?thesis by linarith
  qed
  then have cb: "1 \<le> c" "c \<le> 255"
    using uint_u8_bounds [of C] by (auto simp: c_def)
  have cpc: "sint (cpc_of C) = c"
    by (simp add: cpc_of_def c_def sint_int_of_u8)
  have tb: "- 128 \<le> t" "t \<le> 127" using sint_i8_bounds [of T] by (auto simp: t_def)
  have rb: "0 \<le> r" "r \<le> 255" using uint_u8_bounds [of R] by (auto simp: r_def)
  have ru: "sint (int_of_u8 R) = r" by (simp add: sint_int_of_u8 r_def)
  have tu: "sint (int_of_i8 T) = t" by (simp add: sint_int_of_i8 t_def)
  define x where "x = cpc_of C - int_of_u8 R"
  have d: "sint x = c - r"
    using cb rb by (simp add: x_def sint_word_diff cpc ru stb31)
  have m: "sint (x * 1000) = (c - r) * 1000"
    using cb rb by (simp add: sint_word_mult d stb31)
  define q where "q = ((c - r) * 1000) sdiv c"
  have qa: "\<bar>q\<bar> \<le> \<bar>(c - r) * 1000\<bar>"
    unfolding q_def using cb by (intro sdiv_abs_le) simp
  have qb: "- 255000 \<le> q" "q \<le> 255000"
    using qa cb rb by auto
  have qq: "sint (c_div (x * 1000) (cpc_of C)) = q"
    unfolding c_div_def m cpc q_def [symmetric]
    using qb by (simp add: signed_of_int stb31)
  have t1: "sint (int_of_i8 T * 1000) = t * 1000"
    using tb by (simp add: sint_word_mult tu stb31)
  have t2: "sint (int_of_i8 T * 1000 - 250) = t * 1000 - 250"
    using tb by (simp add: sint_word_diff t1 stb31)
  define y where "y = int_of_i8 T * 1000 - 250"
  define z where "z = c_div (x * 1000) (cpc_of C)"
  have "millideg T R C = y + z"
    unfolding millideg_def Let_def x_def y_def z_def by (rule refl)
  moreover have "sint (y + z) = t * 1000 - 250 + q"
    using tb qb t2 qq by (simp add: sint_word_add stb31 flip: y_def z_def)
  ultimately have "sint (millideg T R C) = t * 1000 - 250 + q"
    by simp
  moreover have "c \<noteq> 0" using cb by simp
  moreover have "sint (millideg 23 3 16) = 23562"
    by (simp add: millideg_def cpc_of_def int_of_u8_def int_of_i8_def c_div_def)
  moreover have "hires 23 3 16 = 23.5625"
    by (simp add: hires_def cpc_of_def int_of_u8_def int_of_i8_def)
  ultimately show ?thesis by (simp add: c_def Let_def q_def r_def t_def)
qed

subsection \<open>Byte codec\<close>

lemma write_byte_loop_wire:
  "i \<le> 8 \<Longrightarrow> write_byte_loop wire_bus i byte s =
     s\<lparr>sent := sent s @ map (\<lambda>k. bit byte k) [0..<8 - i]\<rparr>"
proof (induction wire_bus i byte s rule: write_byte_loop.induct)
  case (1 i byte s)
  show ?case
  proof (cases "i < 8")
    case True
    then have "[0..<8 - i] = 0 # map Suc [0..<8 - (i + 1)]"
      by (metis Suc_diff_Suc Suc_eq_plus1 map_Suc_upt upt_conv_Cons zero_less_diff)
    moreover have "(byte AND 1 \<noteq> 0) = bit byte 0"
      by (simp add: and_one_eq bit_0 mod_2_eq_odd)
    ultimately show ?thesis
      using True 1
      by (subst write_byte_loop.simps) (simp add: wire_bus_def bit_drop_bit_eq comp_def)
  next
    case False
    with 1 show ?thesis
      by (subst write_byte_loop.simps) simp
  qed
qed

lemma read_byte_loop_wire:
  "i \<le> 8 \<Longrightarrow> 8 - i \<le> length (pending s) \<Longrightarrow> n < 8 \<Longrightarrow>
   bit (fst (read_byte_loop wire_bus i acc s)) n
     = (bit acc n \<or> (i \<le> n \<and> pending s ! (n - i)))"
proof (induction wire_bus i acc s rule: read_byte_loop.induct)
  case (1 i byte s)
  show ?case
  proof (cases "i < 8")
    case True
    with 1(3) obtain b bs where p: "pending s = b # bs"
      by (cases "pending s") auto
    have rb: "read_bit wire_bus s = (b, s\<lparr>pending := bs\<rparr>)"
      by (simp add: wire_bus_def wire_read_bit_def p)
    define acc' where "acc' = (if b then byte OR push_bit i 1 else byte)"
    define s' where "s' = s\<lparr>pending := bs\<rparr>"
    have step: "read_byte_loop wire_bus i byte s = read_byte_loop wire_bus (i + 1) acc' s'"
      using True by (subst read_byte_loop.simps) (simp add: rb acc'_def s'_def)
    have "bit (fst (read_byte_loop wire_bus (i + 1) acc' s')) n
       = (bit acc' n \<or> (i + 1 \<le> n \<and> pending s' ! (n - (i + 1))))"
      unfolding acc'_def s'_def
      using True 1(3,4) p by (intro 1(1) [OF True rb [symmetric] refl]) simp_all
    moreover have "bit acc' n = (bit byte n \<or> (b \<and> n = i))"
      using 1(4) True by (auto simp: acc'_def bit_simps)
    moreover have "(i \<le> n \<and> pending s ! (n - i)) = ((b \<and> n = i) \<or> (i + 1 \<le> n \<and> pending s' ! (n - (i + 1))))"
    proof (cases "i < n")
      case True
      then have "n - i = Suc (n - (i + 1))" by simp
      with True show ?thesis by (simp add: p s'_def)
    next
      case False
      then show ?thesis by (auto simp: p s'_def)
    qed
    ultimately show ?thesis
      unfolding step by blast
  next
    case False
    with 1 show ?thesis
      by (subst read_byte_loop.simps) simp
  qed
qed

text \<open>
  Claim C7. \<open>ow_write_byte\<close> emits the eight bits of the value, least significant first,
  and \<open>ow_read_byte\<close>, fed the emitted bit sequence, returns the value.
\<close>

theorem byte_round_trip:
  "sent (ow_write_byte wire_bus v \<lparr>sent = [], pending = []\<rparr>) = map (\<lambda>k. bit v k) [0..<8]
   \<and> fst (ow_read_byte wire_bus
            \<lparr>sent = [], pending = sent (ow_write_byte wire_bus v \<lparr>sent = [], pending = []\<rparr>)\<rparr>) = v"
proof -
  have s: "sent (ow_write_byte wire_bus v \<lparr>sent = [], pending = []\<rparr>) = map (\<lambda>k. bit v k) [0..<8]"
    by (simp add: ow_write_byte_def write_byte_loop_wire)
  have "fst (ow_read_byte wire_bus \<lparr>sent = [], pending = map (\<lambda>k. bit v k) [0..<8]\<rparr>) = v"
  proof (rule bit_word_eqI)
    fix n assume "n < LENGTH(8)"
    then have n: "n < 8" by simp
    then show "bit (fst (ow_read_byte wire_bus \<lparr>sent = [], pending = map (\<lambda>k. bit v k) [0..<8]\<rparr>)) n = bit v n"
      by (simp add: ow_read_byte_def read_byte_loop_wire del: upt_Suc)
  qed
  with s show ?thesis by simp
qed

subsection \<open>The GPIO bus in closed form\<close>

lemmas gpio_defs =
  gpioSetMode_def gpioSetPullUpDown_def gpioWrite_def gpioRead_def gpioDelay_def usleep_def
  emit_def ow_release_def ow_drive_low_def ow_read_bit_raw_def

lemmas ev_defs = ev_release_def ev_drive_low_def ev_reset_def ev_write_bit_def ev_read_bit_def

lemma pin_state_all_set:
  "(r :: pin_state)\<lparr>plevel := l, pmode := m, ppud := u\<rparr> = \<lparr>pmode = m, ppud = u, plevel = l\<rparr>"
  by (cases r) simp

lemma after_after [simp]: "after c e2 k2 (after c e1 k1 w) = after c (e1 @ e2) (k1 + k2) w"
  by (simp add: after_def add.assoc)

lemma after_proj [simp]:
  "line (after c e k w) = line w"
  "nsample (after c e k w) = nsample w + k"
  "trace (after c e k w) = trace w @ e"
  "diag (after c e k w) = diag w"
  "pins (after c e k w) (gpio_pin c) = idle_pin"
  "p \<noteq> gpio_pin c \<Longrightarrow> pins (after c e k w) p = pins w p"
  by (simp_all add: after_def)

lemma ow_reset_raw:
  "ow_reset c w = (\<not> line w (nsample w), after c (ev_reset c (line w (nsample w))) 1 w)"
  by (simp add: ow_reset_def gpio_defs ev_defs timing_defs after_def idle_pin_def Let_def pin_state_all_set)

lemma ow_write_bit_raw: "ow_write_bit c b w = after c (ev_write_bit c b) 0 w"
  by (simp add: ow_write_bit_def gpio_defs ev_defs timing_defs after_def idle_pin_def Let_def pin_state_all_set)

lemma ow_read_bit_raw':
  "ow_read_bit c w = (line w (nsample w), after c (ev_read_bit c (line w (nsample w))) 1 w)"
  by (simp add: ow_read_bit_def gpio_defs ev_defs timing_defs after_def idle_pin_def Let_def pin_state_all_set)

lemma ow_release_after: "ow_release c (after c e k w) = after c (e @ ev_release c) k w"
  by (simp add: gpio_defs ev_defs after_def idle_pin_def pin_state_all_set)

lemma usleep_after: "usleep n (after c e k w) = after c (e @ [USleep n]) k w"
  by (simp add: gpio_defs after_def)


lemma gpio_bus_sel [simp]:
  "reset (gpio_bus c) = ow_reset c"
  "write_bit (gpio_bus c) = ow_write_bit c"
  "read_bit (gpio_bus c) = ow_read_bit c"
  "release (gpio_bus c) = ow_release c"
  "sleep_us (gpio_bus c) = usleep"
  by (simp_all add: gpio_bus_def)

lemma upt_8_step: "i < 8 \<Longrightarrow> [0..<8 - i] = 0 # map Suc [0..<8 - (i + 1)]"
  by (metis Suc_diff_Suc Suc_eq_plus1 map_Suc_upt upt_conv_Cons zero_less_diff)

lemma and_one_neq_zero_iff: "(byte AND 1 \<noteq> 0) = bit (byte :: u8) 0"
  by (simp add: and_one_eq bit_0 mod_2_eq_odd)

lemma write_byte_loop_gpio:
  "i \<le> 8 \<Longrightarrow> write_byte_loop (gpio_bus c) i byte (after c e k w) =
     after c (e @ concat (map (\<lambda>j. ev_write_bit c (bit byte j)) [0..<8 - i])) k w"
proof (induction "gpio_bus c" i byte "after c e k w" arbitrary: e rule: write_byte_loop.induct)
  case (1 i byte)
  show ?case
  proof (cases "i < 8")
    case True
    have st: "ow_write_bit c (byte AND 1 \<noteq> 0) (after c e k w)
              = after c (e @ ev_write_bit c (bit byte 0)) k w"
      by (simp add: ow_write_bit_raw and_one_neq_zero_iff)
    have "write_byte_loop (gpio_bus c) i byte (after c e k w)
          = write_byte_loop (gpio_bus c) (i + 1) (drop_bit 1 byte)
              (after c (e @ ev_write_bit c (bit byte 0)) k w)"
      using True by (subst write_byte_loop.simps) (simp add: st)
    also have "\<dots> = after c ((e @ ev_write_bit c (bit byte 0))
                  @ concat (map (\<lambda>j. ev_write_bit c (bit (drop_bit 1 byte) j)) [0..<8 - (i + 1)])) k w"
      using True by (intro 1(1) [OF True]) (simp_all add: st)
    finally show ?thesis
      by (simp add: upt_8_step [OF True] bit_drop_bit_eq comp_def)
  next
    case False
    with 1(2) show ?thesis
      by (subst write_byte_loop.simps) simp
  qed
qed

lemma ow_write_byte_gpio:
  "ow_write_byte (gpio_bus c) v (after c e k w) = after c (e @ ev_write_byte c v) k w"
  by (simp add: ow_write_byte_def write_byte_loop_gpio ev_write_byte_def)

lemma samples_step: "samples w k (Suc n) = line w (nsample w + k) # samples w (k + 1) n"
  by (simp add: samples_def upt_rec [of 0] map_Suc_upt [symmetric] del: upt_Suc)

lemma read_byte_loop_gpio_world:
  "i \<le> 8 \<Longrightarrow> snd (read_byte_loop (gpio_bus c) i acc (after c e k w)) =
     after c (e @ ev_read_byte c (samples w k (8 - i))) (k + (8 - i)) w"
proof (induction "gpio_bus c" i acc "after c e k w" arbitrary: e k rule: read_byte_loop.induct)
  case (1 i byte)
  show ?case
  proof (cases "i < 8")
    case True
    define v where "v = line w (nsample w + k)"
    have rb: "read_bit (gpio_bus c) (after c e k w) = (v, after c (e @ ev_read_bit c v) (k + 1) w)"
      by (simp add: ow_read_bit_raw' v_def)
    have "snd (read_byte_loop (gpio_bus c) i byte (after c e k w))
          = snd (read_byte_loop (gpio_bus c) (i + 1) (if v then byte OR push_bit i 1 else byte)
              (after c (e @ ev_read_bit c v) (k + 1) w))"
      using True rb by (subst read_byte_loop.simps) simp
    also have "\<dots> = after c ((e @ ev_read_bit c v) @ ev_read_byte c (samples w (k + 1) (8 - (i + 1))))
                         ((k + 1) + (8 - (i + 1))) w"
      using True by (intro 1(1) [OF True rb [symmetric] refl]) simp_all
    finally have fin: "snd (read_byte_loop (gpio_bus c) i byte (after c e k w))
        = after c ((e @ ev_read_bit c v) @ ev_read_byte c (samples w (k + 1) (8 - (i + 1))))
                         ((k + 1) + (8 - (i + 1))) w" .
    have e8: "8 - i = Suc (8 - (i + 1))" using True by simp
    have k8: "(k + 1) + (8 - (i + 1)) = k + (8 - i)" using True by simp
    show ?thesis
      unfolding fin k8 unfolding e8 samples_step
      by (simp add: ev_read_byte_def v_def)
  next
    case False
    with 1(2) show ?thesis
      by (subst read_byte_loop.simps) (simp add: samples_def ev_read_byte_def)
  qed
qed

lemma read_byte_loop_gpio_bits:
  "i \<le> 8 \<Longrightarrow> n < 8 \<Longrightarrow>
   bit (fst (read_byte_loop (gpio_bus c) i acc (after c e k w))) n
     = (bit acc n \<or> (i \<le> n \<and> line w (nsample w + k + (n - i))))"
proof (induction "gpio_bus c" i acc "after c e k w" arbitrary: e k rule: read_byte_loop.induct)
  case (1 i byte)
  show ?case
  proof (cases "i < 8")
    case True
    define v where "v = line w (nsample w + k)"
    define acc' where "acc' = (if v then byte OR push_bit i 1 else byte)"
    have rb: "read_bit (gpio_bus c) (after c e k w) = (v, after c (e @ ev_read_bit c v) (k + 1) w)"
      by (simp add: ow_read_bit_raw' v_def)
    have step: "read_byte_loop (gpio_bus c) i byte (after c e k w)
          = read_byte_loop (gpio_bus c) (i + 1) acc' (after c (e @ ev_read_bit c v) (k + 1) w)"
      using True rb by (subst read_byte_loop.simps) (simp add: acc'_def)
    have "bit (fst (read_byte_loop (gpio_bus c) (i + 1) acc' (after c (e @ ev_read_bit c v) (k + 1) w))) n
          = (bit acc' n \<or> (i + 1 \<le> n \<and> line w (nsample w + (k + 1) + (n - (i + 1)))))"
      unfolding acc'_def
      using True 1(3) by (intro 1(1) [OF True rb [symmetric] refl]) simp_all
    moreover have "bit acc' n = (bit byte n \<or> (v \<and> n = i))"
      using 1(3) True by (auto simp: acc'_def bit_simps)
    moreover have "(i \<le> n \<and> line w (nsample w + k + (n - i)))
                 = ((v \<and> n = i) \<or> (i + 1 \<le> n \<and> line w (nsample w + (k + 1) + (n - (i + 1)))))"
    proof (cases "i < n")
      case True
      then have "nsample w + k + (n - i) = nsample w + (k + 1) + (n - (i + 1))" by simp
      with True show ?thesis by (simp add: v_def)
    next
      case False
      then show ?thesis by (auto simp: v_def)
    qed
    ultimately show ?thesis
      unfolding step by blast
  next
    case False
    with 1(2,3) show ?thesis
      by (subst read_byte_loop.simps) simp
  qed
qed

lemma bit_byte_of_bits:
  "n < 8 \<Longrightarrow> bit (byte_of_bits bs) n = (n < length bs \<and> bs ! n)"
proof (induction bs arbitrary: n)
  case Nil
  then show ?case by (simp add: byte_of_bits_def)
next
  case (Cons b bs)
  have unf: "byte_of_bits (b # bs) = (if b then 1 else 0) OR push_bit 1 (byte_of_bits bs)"
    by (simp add: byte_of_bits_def)
  show ?case
  proof (cases n)
    case 0
    then show ?thesis by (simp add: unf bit_0 even_or_iff)
  next
    case (Suc m)
    with Cons.prems have "m < 8" by simp
    have "bit (push_bit 1 (byte_of_bits bs)) (Suc m) = bit (byte_of_bits bs) m"
      unfolding bit_push_bit_iff using Suc Cons.prems by (simp add: possible_bit_word)
    moreover have "\<not> bit (if b then 1 else 0 :: u8) (Suc m)"
      by (simp add: bit_1_iff)
    ultimately have "bit (byte_of_bits (b # bs)) (Suc m) = bit (byte_of_bits bs) m"
      unfolding unf bit_or_iff by blast
    with Cons.IH [OF \<open>m < 8\<close>] Suc show ?thesis by simp
  qed
qed

lemma ow_read_byte_gpio:
  "ow_read_byte (gpio_bus c) (after c e k w) =
     (byte_of_bits (samples w k 8), after c (e @ ev_read_byte c (samples w k 8)) (k + 8) w)"
proof -
  have "fst (ow_read_byte (gpio_bus c) (after c e k w)) = byte_of_bits (samples w k 8)"
  proof (rule bit_word_eqI)
    fix n assume "n < LENGTH(8)"
    then have n: "n < 8" by simp
    then show "bit (fst (ow_read_byte (gpio_bus c) (after c e k w))) n
               = bit (byte_of_bits (samples w k 8)) n"
      by (simp add: ow_read_byte_def read_byte_loop_gpio_bits bit_byte_of_bits samples_def
               del: upt_Suc)
  qed
  moreover have "snd (ow_read_byte (gpio_bus c) (after c e k w))
                 = after c (e @ ev_read_byte c (samples w k 8)) (k + 8) w"
    by (simp add: ow_read_byte_def read_byte_loop_gpio_world)
  ultimately show ?thesis by (simp add: prod_eq_iff)
qed


lemma samples_after [simp]: "samples (after c e k w) j n = samples w (k + j) n"
  by (simp add: samples_def add.assoc)

lemma cmd_shapes:
  "ds1821_read_status_reg B s = read_cmd B DS1821_CMD_READ_STATUS s"
  "ds1821_write_status_reg B v s = write_cmd B DS1821_CMD_WRITE_STATUS v s"
  "ds1821_read_temperature B s = read_cmd B DS1821_CMD_READ_TEMP s"
  "ds1821_read_counter B s = read_cmd B DS1821_CMD_READ_COUNTER s"
  "ds1821_read_slope B s = read_cmd B DS1821_CMD_READ_SLOPE s"
  "ds1821_read_th B s = read_cmd B DS1821_CMD_READ_TH s"
  "ds1821_read_tl B s = read_cmd B DS1821_CMD_READ_TL s"
  "ds1821_write_th B v s = write_cmd B DS1821_CMD_WRITE_TH v s"
  "ds1821_write_tl B v s = write_cmd B DS1821_CMD_WRITE_TL v s"
  by (simp_all add: read_cmd_def write_cmd_def
        ds1821_read_status_reg_def ds1821_write_status_reg_def ds1821_read_temperature_def ds1821_read_counter_def
        ds1821_read_slope_def ds1821_read_th_def ds1821_read_tl_def ds1821_write_th_def ds1821_write_tl_def)

lemmas ds1821_read_status_reg_shape = cmd_shapes(1)
lemmas ds1821_write_status_reg_shape = cmd_shapes(2)
lemmas ds1821_read_temperature_shape = cmd_shapes(3)
lemmas ds1821_read_counter_shape = cmd_shapes(4)
lemmas ds1821_read_slope_shape = cmd_shapes(5)
lemmas ds1821_read_th_shape = cmd_shapes(6)
lemmas ds1821_read_tl_shape = cmd_shapes(7)
lemmas ds1821_write_th_shape = cmd_shapes(8)
lemmas ds1821_write_tl_shape = cmd_shapes(9)

lemma read_cmd_gpio:
  "read_cmd (gpio_bus c) cmd w =
     (if line w (nsample w) then (None, after c (ev_reset c True) 1 w)
      else (Some (byte_of_bits (samples w 1 8)),
            after c (ev_reset c False @ ev_write_byte c cmd @ ev_read_byte c (samples w 1 8)) 9 w))"
  by (simp add: read_cmd_def ow_reset_raw ow_write_byte_gpio ow_read_byte_gpio)

lemma write_cmd_gpio:
  "write_cmd (gpio_bus c) cmd v w =
     (if line w (nsample w) then (None, after c (ev_reset c True) 1 w)
      else (Some (),
            after c (ev_reset c False @ ev_write_byte c cmd @ ev_write_byte c v
                     @ ev_release c @ [USleep 200000]) 1 w))"
  by (simp add: write_cmd_def ow_reset_raw ow_write_byte_gpio ow_release_after usleep_after)

lemma write_status_skiprom_gpio:
  "ds1821_write_status_skiprom (gpio_bus c) v w =
     (if line w (nsample w) then (None, after c (ev_reset c True) 1 w)
      else (Some (), after c (ev_write_status_skiprom c v) 1 w))"
  by (simp add: ds1821_write_status_skiprom_def ow_reset_raw ow_write_byte_gpio
        ow_release_after usleep_after ev_write_status_skiprom_def)

lemma read_status_skiprom_gpio:
  "ds1821_read_status_skiprom (gpio_bus c) w =
     (if line w (nsample w) then (None, after c (ev_reset c True) 1 w)
      else (Some (byte_of_bits (samples w 1 8)),
            after c (ev_read_status_skiprom c (samples w 1 8)) 9 w))"
  by (simp add: ds1821_read_status_skiprom_def ow_reset_raw ow_write_byte_gpio
        ow_read_byte_gpio ev_read_status_skiprom_def)

lemma start_convert_gpio:
  "ds1821_start_convert (gpio_bus c) w =
     (if line w (nsample w) then (None, after c (ev_reset c True) 1 w)
      else (Some (), after c (ev_reset c False @ ev_write_byte c DS1821_CMD_START_CONVERT) 1 w))"
  by (simp add: ds1821_start_convert_def ow_reset_raw ow_write_byte_gpio)

lemmas cmd_op_defs =
  ds1821_read_status_reg_shape ds1821_write_status_reg_shape ds1821_read_temperature_shape
  ds1821_read_counter_shape ds1821_read_slope_shape ds1821_read_th_shape ds1821_read_tl_shape
  ds1821_write_th_shape ds1821_write_tl_shape

lemmas cmd_gpio =
  read_cmd_gpio write_cmd_gpio write_status_skiprom_gpio read_status_skiprom_gpio
  start_convert_gpio

lemma run_op_gpio_absent:
  "line w (nsample w) \<Longrightarrow> run_op (gpio_bus c) op w = (False, after c (ev_reset c True) 1 w)"
  by (cases op) (simp_all add: succeeded_def cmd_op_defs cmd_gpio)

lemma run_op_gpio_after:
  "\<exists>rest k. snd (run_op (gpio_bus c) op w) = after c (ev_reset c (line w (nsample w)) @ rest) k w"
proof (cases "line w (nsample w)")
  case True
  then have "snd (run_op (gpio_bus c) op w) = after c (ev_reset c (line w (nsample w)) @ []) 1 w"
    by (simp add: run_op_gpio_absent)
  then show ?thesis by blast
next
  case False
  then show ?thesis
    by (cases op)
       (simp_all add: succeeded_def cmd_op_defs cmd_gpio ev_write_status_skiprom_def
          ev_read_status_skiprom_def, blast+)
qed

text \<open>
  Claim C5. Every operation of the device command layer, run on the GPIO bus, starts with
  the reset: its trace extends the trace of \<open>ow_reset\<close>. When the reset detects no
  presence the operation fails and the world is the one the reset left: the only pin
  activity is that of the reset.
\<close>

theorem command_reset_first:
  "(\<exists>rest. trace (snd (run_op (gpio_bus c) op w)) = trace (snd (ow_reset c w)) @ rest)
   \<and> (\<not> fst (ow_reset c w) \<longrightarrow>
        run_op (gpio_bus c) op w = (False, snd (ow_reset c w))
        \<and> new_events w (snd (run_op (gpio_bus c) op w)) = ev_reset c True)"
proof -
  obtain rest k where
    "snd (run_op (gpio_bus c) op w) = after c (ev_reset c (line w (nsample w)) @ rest) k w"
    using run_op_gpio_after by blast
  then have "trace (snd (run_op (gpio_bus c) op w)) = trace (snd (ow_reset c w)) @ rest"
    by (simp add: ow_reset_raw)
  then show ?thesis
    by (auto simp: ow_reset_raw run_op_gpio_absent new_events_def)
qed

theorem command_reset_first_witness:
  "\<not> fst (ow_reset default_config idle_world)
   \<and> run_op (gpio_bus default_config) (Write_th 30) idle_world
       = (False, snd (ow_reset default_config idle_world))
   \<and> new_events idle_world (snd (run_op (gpio_bus default_config) (Write_th 30) idle_world))
       = ev_reset default_config True"
proof -
  have h: "\<not> fst (ow_reset default_config idle_world)"
    by (simp add: ow_reset_raw idle_world_def)
  with command_reset_first [of default_config "Write_th 30" idle_world] show ?thesis
    by blast
qed

subsection \<open>Open-drain discipline\<close>

lemma ow_write_byte_gpio_raw:
  "ow_write_byte (gpio_bus c) v w = after c (ev_write_byte c v) 0 w"
proof -
  have "write_byte_loop (gpio_bus c) 0 v w
        = write_byte_loop (gpio_bus c) 1 (drop_bit 1 v) (after c (ev_write_bit c (bit v 0)) 0 w)"
    by (subst write_byte_loop.simps) (simp add: ow_write_bit_raw and_one_neq_zero_iff)
  also have "\<dots> = after c (ev_write_bit c (bit v 0)
                 @ concat (map (\<lambda>j. ev_write_bit c (bit (drop_bit 1 v) j)) [0..<8 - 1])) 0 w"
    by (simp add: write_byte_loop_gpio del: upt_Suc)
  finally show ?thesis
    using upt_8_step [of 0]
    by (simp add: ow_write_byte_def ev_write_byte_def bit_drop_bit_eq comp_def del: upt_Suc)
qed

lemma ow_read_byte_gpio_raw:
  "ow_read_byte (gpio_bus c) w =
     (byte_of_bits (samples w 0 8), after c (ev_read_byte c (samples w 0 8)) 8 w)"
proof -
  define v where "v = line w (nsample w)"
  define acc where "acc = (if v then 0 OR push_bit 0 1 else 0 :: u8)"
  have step: "ow_read_byte (gpio_bus c) w
        = read_byte_loop (gpio_bus c) 1 acc (after c (ev_read_bit c v) 1 w)"
    unfolding ow_read_byte_def
    by (subst read_byte_loop.simps) (simp add: ow_read_bit_raw' v_def acc_def)
  have "fst (ow_read_byte (gpio_bus c) w) = byte_of_bits (samples w 0 8)"
  proof (rule bit_word_eqI)
    fix n assume "n < LENGTH(8)"
    then have n: "n < 8" by simp
    have "bit acc n = (v \<and> n = 0)"
      by (auto simp: acc_def bit_simps)
    moreover have "(1 \<le> n \<and> line w (nsample w + 1 + (n - 1))) = (1 \<le> n \<and> line w (nsample w + n))"
      by (cases n) auto
    ultimately show "bit (fst (ow_read_byte (gpio_bus c) w)) n
               = bit (byte_of_bits (samples w 0 8)) n"
      using n unfolding step
      by (cases "n = 0")
         (simp_all add: read_byte_loop_gpio_bits bit_byte_of_bits samples_def v_def del: upt_Suc)
  qed
  moreover have "snd (ow_read_byte (gpio_bus c) w)
                 = after c (ev_read_byte c (samples w 0 8)) 8 w"
    unfolding step
    using samples_step [of w 0 7]
    by (simp add: read_byte_loop_gpio_world ev_read_byte_def v_def)
  ultimately show ?thesis by (simp add: prod_eq_iff)
qed

lemma not_high_ev [simp]:
  "\<not> drives_high c (ev_release c)"
  "\<not> drives_high c (ev_drive_low c)"
  "\<not> drives_high c (ev_reset c v)"
  "\<not> drives_high c (ev_write_bit c b)"
  "\<not> drives_high c (ev_read_bit c v)"
  "\<not> drives_high c [USleep n]"
  by (simp_all add: drives_high_def ev_defs)

lemma drives_high_append [simp]:
  "drives_high c (xs @ ys) = (drives_high c xs \<or> drives_high c ys)"
  by (auto simp: drives_high_def)

lemma not_high_ev_write_byte [simp]: "\<not> drives_high c (ev_write_byte c v)"
  using not_high_ev(4) by (auto simp: ev_write_byte_def drives_high_def)

lemma not_high_ev_read_byte [simp]: "\<not> drives_high c (ev_read_byte c vs)"
  using not_high_ev(5) by (auto simp: ev_read_byte_def drives_high_def)

lemma new_events_after [simp]: "new_events w (after c e k w) = e"
  by (simp add: new_events_def)

lemma open_drain_after [simp]: "open_drain c (after c e k w)"
  by (simp add: open_drain_def idle_pin_def)

lemma extends_after [simp]: "extends_trace w (after c e k w)"
  by (simp add: extends_trace_def)

lemma keeps_after: "\<not> drives_high c e \<Longrightarrow> keeps_open_drain c w (after c e k w)"
  by (simp add: keeps_open_drain_def)

lemma run_op_keeps: "keeps_open_drain c w (snd (run_op (gpio_bus c) op w))"
  by (cases op)
     (simp_all add: succeeded_def cmd_op_defs cmd_gpio keeps_after
        ev_write_status_skiprom_def ev_read_status_skiprom_def)

lemma extends_trace_iff: "extends_trace w w' = (\<exists>e. trace w' = trace w @ e)"
proof
  assume "extends_trace w w'"
  then have "trace w' = trace w @ drop (length (trace w)) (trace w')"
    unfolding extends_trace_def by (metis append_take_drop_id)
  then show "\<exists>e. trace w' = trace w @ e" ..
next
  assume "\<exists>e. trace w' = trace w @ e"
  then show "extends_trace w w'" by (auto simp: extends_trace_def)
qed

lemma respects_iff:
  "respects_open_drain c w w' =
     ((pins w' (gpio_pin c) = pins w (gpio_pin c) \<or> open_drain c w')
      \<and> (\<exists>e. trace w' = trace w @ e \<and> \<not> drives_high c e))"
  by (auto simp: respects_open_drain_def extends_trace_iff new_events_def)

lemma keeps_iff:
  "keeps_open_drain c w w' = (open_drain c w' \<and> respects_open_drain c w w')"
  by (auto simp: respects_open_drain_def keeps_open_drain_def)

lemma respects_refl [simp]: "respects_open_drain c w w"
  by (simp add: respects_iff drives_high_def)

lemma respects_trans:
  assumes "respects_open_drain c w w1" "respects_open_drain c w1 w2"
  shows "respects_open_drain c w w2"
proof -
  from assms obtain e1 e2 where e: "trace w1 = trace w @ e1" "\<not> drives_high c e1"
    "trace w2 = trace w1 @ e2" "\<not> drives_high c e2"
    by (auto simp: respects_iff)
  then have "trace w2 = trace w @ (e1 @ e2)" "\<not> drives_high c (e1 @ e2)" by simp_all
  then have t: "\<exists>e. trace w2 = trace w @ e \<and> \<not> drives_high c e" by blast
  from assms have "pins w2 (gpio_pin c) = pins w (gpio_pin c) \<or> open_drain c w2"
    by (auto simp: respects_iff open_drain_def)
  with t show ?thesis by (simp add: respects_iff)
qed

lemma keeps_respects: "keeps_open_drain c w w' \<Longrightarrow> respects_open_drain c w w'"
  by (simp add: keeps_iff)

lemma keeps_then:
  assumes "keeps_open_drain c w w1" "respects_open_drain c w1 w2"
  shows "keeps_open_drain c w w2"
proof -
  from assms have "respects_open_drain c w w2"
    using respects_trans keeps_respects by blast
  moreover from assms have "open_drain c w2"
    by (auto simp: keeps_iff respects_iff open_drain_def)
  ultimately show ?thesis by (simp add: keeps_iff)
qed

lemma keeps_reset: "keeps_open_drain c w (snd (ow_reset c w))"
  by (simp add: ow_reset_raw keeps_after)

lemma keeps_write_bit: "keeps_open_drain c w (ow_write_bit c b w)"
  by (simp add: ow_write_bit_raw keeps_after)

lemma keeps_read_bit: "keeps_open_drain c w (snd (ow_read_bit c w))"
  by (simp add: ow_read_bit_raw' keeps_after)

lemma keeps_write_byte: "keeps_open_drain c w (ow_write_byte (gpio_bus c) v w)"
  by (simp add: ow_write_byte_gpio_raw keeps_after)

lemma keeps_read_byte: "keeps_open_drain c w (snd (ow_read_byte (gpio_bus c) w))"
  by (simp add: ow_read_byte_gpio_raw keeps_after)

lemma respects_say: "respects_open_drain c w (say m w)"
  by (simp add: respects_iff say_def drives_high_def)

lemma respects_usleep: "respects_open_drain c w (usleep n w)"
  by (simp add: respects_iff gpio_defs drives_high_def)

lemmas respects_reset = keeps_reset [THEN keeps_respects]
lemmas respects_write_bit = keeps_write_bit [THEN keeps_respects]
lemmas respects_read_bit = keeps_read_bit [THEN keeps_respects]
lemmas respects_write_byte = keeps_write_byte [THEN keeps_respects]
lemmas respects_read_byte = keeps_read_byte [THEN keeps_respects]

text \<open>The loops of the ROM layer.\<close>

lemma respects_read_rom_loop:
  "respects_open_drain c w (snd (read_rom_loop (gpio_bus c) i rom w))"
proof (induction "gpio_bus c" i rom w rule: read_rom_loop.induct)
  case (1 i rom w)
  show ?case
  proof (cases "i < 8")
    case True
    obtain v w1 where rb: "ow_read_byte (gpio_bus c) w = (v, w1)"
      by (cases "ow_read_byte (gpio_bus c) w") auto
    then have s1: "respects_open_drain c w w1"
      using respects_read_byte [of c w] by simp
    from 1 [OF True rb [symmetric] refl]
    have "respects_open_drain c w1 (snd (read_rom_loop (gpio_bus c) (i + 1) (rom[i := v]) w1))" .
    with s1 have "respects_open_drain c w (snd (read_rom_loop (gpio_bus c) (i + 1) (rom[i := v]) w1))"
      by (rule respects_trans)
    then show ?thesis
      using True rb by (subst read_rom_loop.simps) simp
  next
    case False
    then show ?thesis by (subst read_rom_loop.simps) simp
  qed
qed

lemma search_bits_step:
  assumes "p < 64" "read_bit B s = (id_bit, s1)" "read_bit B s1 = (cmp_bit, s2)"
  shows "(id_bit \<and> cmp_bit \<longrightarrow> search_bits B ld p rom nd s = (True, rom, nd, s2))
       \<and> (\<not> (id_bit \<and> cmp_bit) \<longrightarrow>
            (\<exists>dir rom' nd'. search_bits B ld p rom nd s
                             = search_bits B ld (p + 1) rom' nd' (write_bit B dir s2)))"
proof (intro conjI impI)
  assume "id_bit \<and> cmp_bit"
  with assms show "search_bits B ld p rom nd s = (True, rom, nd, s2)"
    by (subst search_bits.simps) simp
next
  assume n: "\<not> (id_bit \<and> cmp_bit)"
  define t where "t =
     (if id_bit \<noteq> cmp_bit then (id_bit, nd)
      else if int p = ld then (True, nd)
      else if int p > ld then (False, int p)
      else (let dir = (rom ! (p div 8) AND push_bit (p mod 8) 1 \<noteq> 0)
            in (dir, if \<not> dir then int p else nd)))"
  have "search_bits B ld p rom nd s
        = search_bits B ld (p + 1)
            (rom[p div 8 := (if fst t then rom ! (p div 8) OR push_bit (p mod 8) 1
                             else rom ! (p div 8) AND NOT (push_bit (p mod 8) 1))])
            (snd t) (write_bit B (fst t) s2)"
    using assms n
    by (subst search_bits.simps) (auto simp: t_def Let_def case_prod_beta)
  then show "\<exists>dir rom' nd'. search_bits B ld p rom nd s
                             = search_bits B ld (p + 1) rom' nd' (write_bit B dir s2)"
    by blast
qed

lemma respects_search_bits:
  "respects_open_drain c w w1 \<Longrightarrow>
   respects_open_drain c w (snd (snd (snd (search_bits (gpio_bus c) ld p rom nd w1))))"
proof (induction "64 - p" arbitrary: p rom nd w1)
  case 0
  then show ?case by (subst search_bits.simps) simp
next
  case (Suc n)
  then have p: "p < 64" by simp
  obtain id_bit w2 where r1: "read_bit (gpio_bus c) w1 = (id_bit, w2)"
    by (cases "read_bit (gpio_bus c) w1") auto
  obtain cmp_bit w3 where r2: "read_bit (gpio_bus c) w2 = (cmp_bit, w3)"
    by (cases "read_bit (gpio_bus c) w2") auto
  have "respects_open_drain c w1 w2" using r1 respects_read_bit [of c w1] by simp
  moreover have "respects_open_drain c w2 w3" using r2 respects_read_bit [of c w2] by simp
  ultimately have s3: "respects_open_drain c w w3"
    using Suc.prems respects_trans by blast
  note st = search_bits_step [OF p r1 r2, of ld rom nd]
  show ?case
  proof (cases "id_bit \<and> cmp_bit")
    case True
    with st s3 show ?thesis by simp
  next
    case False
    with st obtain dir rom' nd' where
      eq: "search_bits (gpio_bus c) ld p rom nd w1
             = search_bits (gpio_bus c) ld (p + 1) rom' nd' (write_bit (gpio_bus c) dir w3)"
      by blast
    have "respects_open_drain c w (write_bit (gpio_bus c) dir w3)"
      using s3 respects_write_bit [of c w3 dir] respects_trans by simp
    moreover have "n = 64 - (p + 1)" using Suc.hyps(2) by simp
    ultimately show ?thesis
      unfolding eq by (intro Suc.hyps(1))
  qed
qed

lemma search_loop_step:
  assumes "\<not> done" "int device_count < max_devices" "reset B s = (True, s1)"
    "search_bits B ld 0 rom (- 1) (ow_write_byte B OW_CMD_SEARCH_ROM s1) = (done1, rom1, nd, s3)"
  shows "search_loop B max_devices device_count ld done rom roms s =
           search_loop B max_devices (if \<not> done1 then device_count + 1 else device_count) nd
             (done1 \<or> nd < 0) rom1 (if \<not> done1 then roms @ [rom1] else roms) s3"
  using assms by (subst search_loop.simps) simp

lemma respects_search_loop:
  "respects_open_drain c w w1 \<Longrightarrow>
   respects_open_drain c w
     (snd (snd (search_loop (gpio_bus c) max_devices device_count ld dn rom roms w1)))"
proof (induction "if dn then 0 else nat (max_devices - int device_count) + 1"
         arbitrary: device_count ld dn rom roms w1 rule: less_induct)
  case less
  show ?case
  proof (cases "\<not> dn \<and> int device_count < max_devices")
    case False
    then show ?thesis using less.prems by (subst search_loop.simps) auto
  next
    case True
    obtain presence w2 where rs: "reset (gpio_bus c) w1 = (presence, w2)"
      by (cases "reset (gpio_bus c) w1") auto
    have s2: "respects_open_drain c w w2"
      using rs respects_trans [OF less.prems respects_reset] by simp
    show ?thesis
    proof (cases presence)
      case False
      with True rs s2 show ?thesis by (subst search_loop.simps) simp
    next
      case p: True
      define w3 where "w3 = ow_write_byte (gpio_bus c) OW_CMD_SEARCH_ROM w2"
      have s3: "respects_open_drain c w w3"
        unfolding w3_def by (rule respects_trans [OF s2 respects_write_byte])
      obtain done1 rom1 nd w4 where sb:
        "search_bits (gpio_bus c) ld 0 rom (- 1) w3 = (done1, rom1, nd, w4)"
        by (cases "search_bits (gpio_bus c) ld 0 rom (- 1) w3") auto
      have s4: "respects_open_drain c w w4"
        using respects_search_bits [OF s3, of ld 0 rom "- 1"] sb by simp
      have eq: "search_loop (gpio_bus c) max_devices device_count ld dn rom roms w1 =
           search_loop (gpio_bus c) max_devices (if \<not> done1 then device_count + 1 else device_count) nd
             (done1 \<or> nd < 0) rom1 (if \<not> done1 then roms @ [rom1] else roms) w4"
        using True rs p sb by (intro search_loop_step) (simp_all add: w3_def)
      have dec: "(if done1 \<or> nd < 0 then 0
                  else nat (max_devices - int (if \<not> done1 then device_count + 1 else device_count)) + 1)
                 < (if dn then 0 else nat (max_devices - int device_count) + 1)"
        using True by auto
      show ?thesis
        unfolding eq by (rule less.hyps [OF dec s4])
    qed
  qed
qed

lemma respects_search_rom:
  "respects_open_drain c w (snd (snd (ow_search_rom (gpio_bus c) max_devices w)))"
  unfolding ow_search_rom_def by (rule respects_search_loop) simp


text \<open>
  Rules that follow the shape of the definitions: the first transaction establishes the
  discipline, every later step keeps it.
\<close>

lemma keeps_pair: "keeps_open_drain c w w' \<Longrightarrow> keeps_open_drain c w (snd (r, w'))"
  by simp

lemma keeps_case_prod:
  assumes "keeps_open_drain c w (snd p)"
    and "\<And>r w1. keeps_open_drain c w w1 \<Longrightarrow> keeps_open_drain c w (snd (g r w1))"
  shows "keeps_open_drain c w (snd (case p of (r, w1) \<Rightarrow> g r w1))"
  using assms by (cases p) simp

lemma keeps_case_prod3:
  assumes "keeps_open_drain c w (snd (snd p))"
    and "\<And>a b w1. keeps_open_drain c w w1 \<Longrightarrow> keeps_open_drain c w (snd (g a b w1))"
  shows "keeps_open_drain c w (snd (case p of (a, b, w1) \<Rightarrow> g a b w1))"
  using assms by (cases p) simp

lemma keeps_case_data:
  assumes "\<And>a b. keeps_open_drain c w (snd (g a b))"
  shows "keeps_open_drain c w (snd (case p of (a, b) \<Rightarrow> g a b))"
  using assms by (cases p) simp

lemma keeps_case_option:
  assumes "keeps_open_drain c w (snd a)"
    and "\<And>x. keeps_open_drain c w (snd (b x))"
  shows "keeps_open_drain c w (snd (case r of None \<Rightarrow> a | Some x \<Rightarrow> b x))"
  using assms by (cases r) simp_all

lemma keeps_case_option_world:
  assumes "keeps_open_drain c w a" and "\<And>x. keeps_open_drain c w (b x)"
  shows "keeps_open_drain c w (case r of None \<Rightarrow> a | Some x \<Rightarrow> b x)"
  using assms by (cases r) simp_all

lemma keeps_if:
  assumes "keeps_open_drain c w (snd a)" "keeps_open_drain c w (snd b)"
  shows "keeps_open_drain c w (snd (if t then a else b))"
  using assms by simp

lemma keeps_if_world:
  assumes "keeps_open_drain c w a" "keeps_open_drain c w b"
  shows "keeps_open_drain c w (if t then a else b)"
  using assms by simp

lemmas keeps_shape =
  keeps_case_prod3 keeps_case_prod keeps_case_option keeps_case_option_world
  keeps_if keeps_if_world keeps_pair

text \<open>A transaction of the command layer, as the first step and as a later one.\<close>

lemma cmd_as_run_op:
  "snd (ds1821_read_status_reg B s) = snd (run_op B Read_status s)"
  "snd (ds1821_write_status_reg B v s) = snd (run_op B (Write_status v) s)"
  "snd (ds1821_write_status_skiprom B v s) = snd (run_op B (Write_status_skiprom v) s)"
  "snd (ds1821_read_status_skiprom B s) = snd (run_op B Read_status_skiprom s)"
  "snd (ds1821_read_temperature B s) = snd (run_op B Read_temperature s)"
  "snd (ds1821_read_counter B s) = snd (run_op B Read_counter s)"
  "snd (ds1821_read_slope B s) = snd (run_op B Read_slope s)"
  "snd (ds1821_start_convert B s) = snd (run_op B Start_convert s)"
  "snd (ds1821_read_th B s) = snd (run_op B Read_th s)"
  "snd (ds1821_read_tl B s) = snd (run_op B Read_tl s)"
  "snd (ds1821_write_th B v s) = snd (run_op B (Write_th v) s)"
  "snd (ds1821_write_tl B v s) = snd (run_op B (Write_tl v) s)"
  by (simp_all add: succeeded_def)

lemma keeps_cmd_first:
  shows "keeps_open_drain c w (snd (ds1821_read_status_reg (gpio_bus c) w))"
    and "keeps_open_drain c w (snd (ds1821_write_status_reg (gpio_bus c) v w))"
    and "keeps_open_drain c w (snd (ds1821_write_status_skiprom (gpio_bus c) v w))"
    and "keeps_open_drain c w (snd (ds1821_read_status_skiprom (gpio_bus c) w))"
    and "keeps_open_drain c w (snd (ds1821_read_temperature (gpio_bus c) w))"
    and "keeps_open_drain c w (snd (ds1821_read_counter (gpio_bus c) w))"
    and "keeps_open_drain c w (snd (ds1821_read_slope (gpio_bus c) w))"
    and "keeps_open_drain c w (snd (ds1821_start_convert (gpio_bus c) w))"
    and "keeps_open_drain c w (snd (ds1821_read_th (gpio_bus c) w))"
    and "keeps_open_drain c w (snd (ds1821_read_tl (gpio_bus c) w))"
    and "keeps_open_drain c w (snd (ds1821_write_th (gpio_bus c) v w))"
    and "keeps_open_drain c w (snd (ds1821_write_tl (gpio_bus c) v w))"
  unfolding cmd_as_run_op by (rule run_op_keeps)+

lemmas keeps_cmd_later = keeps_cmd_first [THEN keeps_respects, THEN [2] keeps_then]

lemma keeps_later:
  assumes "keeps_open_drain c w w1"
  shows "keeps_open_drain c w (say m w1)"
    and "keeps_open_drain c w (usleep n w1)"
    and "keeps_open_drain c w (snd (ow_reset c w1))"
    and "keeps_open_drain c w (ow_write_byte (gpio_bus c) v w1)"
    and "keeps_open_drain c w (snd (ow_read_byte (gpio_bus c) w1))"
    and "keeps_open_drain c w (snd (read_rom_loop (gpio_bus c) i rom w1))"
    and "keeps_open_drain c w (snd (snd (ow_search_rom (gpio_bus c) k w1)))"
  using assms
  by (blast intro: keeps_then respects_say respects_usleep respects_reset
        respects_write_byte respects_read_byte respects_read_rom_loop respects_search_rom)+

lemmas keeps_intros = keeps_shape keeps_cmd_later keeps_later keeps_cmd_first keeps_reset

lemma keeps_read_rom: "keeps_open_drain c w (snd (ow_read_rom (gpio_bus c) w))"
  unfolding ow_read_rom_def Let_def gpio_bus_sel
  by (intro keeps_intros)

lemma keeps_set_oneshot: "keeps_open_drain c w (snd (action_set_oneshot (gpio_bus c) w))"
  unfolding action_set_oneshot_def Let_def
  by (intro keeps_intros)

lemma keeps_say_tout:
  "keeps_open_drain c w w1 \<Longrightarrow> keeps_open_drain c w (say_tout t w1)"
  unfolding say_tout_def by (intro keeps_intros)

lemma keeps_say_thresholds:
  "keeps_open_drain c w w1 \<Longrightarrow> keeps_open_drain c w (say_thresholds t w1)"
  unfolding say_thresholds_def by (cases t) (simp add: keeps_later)

lemma keeps_read_tout_off:
  "keeps_open_drain c w w1 \<Longrightarrow>
   keeps_open_drain c w (snd (read_tout (c\<lparr>read_tout_flag := False\<rparr>) w1))"
  by (simp add: read_tout_def)

lemma keeps_read_thresholds_first:
  "keeps_open_drain c w (snd (read_thresholds (gpio_bus c) w))"
  unfolding read_thresholds_def Let_def by (intro keeps_intros)

lemma keeps_read_both_first:
  "keeps_open_drain c w (snd (read_both (gpio_bus c) w))"
  unfolding read_both_def Let_def by (intro keeps_intros)

lemmas keeps_read_thresholds_later =
  keeps_read_thresholds_first [THEN keeps_respects, THEN [2] keeps_then]

lemmas keeps_read_both_later =
  keeps_read_both_first [THEN keeps_respects, THEN [2] keeps_then]

lemma keeps_measure_seq: "keeps_open_drain c w (snd (measure_seq c w))"
  unfolding measure_seq_def Let_def by (intro keeps_intros)

lemmas keeps_action_intros =
  keeps_intros keeps_read_rom [THEN keeps_respects, THEN [2] keeps_then]
  keeps_say_tout keeps_say_thresholds keeps_read_tout_off
  keeps_read_thresholds_later keeps_read_both_later keeps_read_both_first keeps_measure_seq
  keeps_case_data

lemma gpio_bus_flag: "gpio_bus (c\<lparr>read_tout_flag := f\<rparr>) = gpio_bus c"
  by (simp add: gpio_bus_def fun_eq_iff ow_reset_def ow_write_bit_def ow_read_bit_def ow_release_def
        ow_drive_low_def ow_read_bit_raw_def Let_def)

lemma measure_seq_flag: "measure_seq (c\<lparr>read_tout_flag := f\<rparr>) w = measure_seq c w"
  unfolding measure_seq_def gpio_bus_flag by (rule refl)

lemma keeps_action_scan: "keeps_open_drain c w (snd (action_scan c w))"
  unfolding action_scan_def Let_def by (intro keeps_action_intros)

lemma keeps_action_probe:
  "keeps_open_drain c w (snd (action_probe (c\<lparr>read_tout_flag := False\<rparr>) w))"
  unfolding action_probe_def Let_def gpio_bus_flag by (intro keeps_action_intros)

lemma keeps_action_read_temp:
  "keeps_open_drain c w (snd (action_read_temp (c\<lparr>read_tout_flag := False\<rparr>) w))"
  unfolding action_read_temp_def Let_def measure_seq_flag by (intro keeps_action_intros)

lemma keeps_action_status:
  "keeps_open_drain c w (snd (action_status (c\<lparr>read_tout_flag := False\<rparr>) w))"
  unfolding action_status_def Let_def measure_seq_flag gpio_bus_flag
  by (intro keeps_action_intros)

lemma keeps_action_set_thresholds:
  "keeps_open_drain c w (snd (action_set_thresholds c set_th set_tl new_th new_tl w))"
  unfolding action_set_thresholds_def Let_def by (intro keeps_action_intros)

text \<open>
  Claim C8, as amended. Release, drive-low, reset, the bit and byte operations, every
  command-layer operation, Read ROM and the actions \<open>scan\<close>, \<open>set-oneshot\<close> and the threshold
  update, and \<open>probe\<close>, \<open>temp\<close> and \<open>status\<close> run without \<open>--read-tout\<close>, leave the data pin
  released with the pull-up enabled or driven low, and none of them writes a high level to
  it. Search ROM, which does nothing when asked for no device, leaves the pin as it found
  it or in one of these two states, and writes no high level either. \<open>read_tout\<close>, when
  enabled, leaves the pin as an input with the pull-up switched off.
\<close>

theorem open_drain_bus_operations:
  "keeps_open_drain c w (ow_release c w)
   \<and> keeps_open_drain c w (ow_drive_low c w)
   \<and> keeps_open_drain c w (snd (ow_reset c w))
   \<and> keeps_open_drain c w (ow_write_bit c b w)
   \<and> keeps_open_drain c w (snd (ow_read_bit c w))
   \<and> keeps_open_drain c w (ow_write_byte (gpio_bus c) v w)
   \<and> keeps_open_drain c w (snd (ow_read_byte (gpio_bus c) w))
   \<and> keeps_open_drain c w (snd (run_op (gpio_bus c) op w))
   \<and> keeps_open_drain c w (snd (ow_read_rom (gpio_bus c) w))
   \<and> respects_open_drain c w (snd (snd (ow_search_rom (gpio_bus c) max_devices w)))
   \<and> keeps_open_drain c w (snd (action_scan c w))
   \<and> keeps_open_drain c w (snd (action_probe (c\<lparr>read_tout_flag := False\<rparr>) w))
   \<and> keeps_open_drain c w (snd (action_read_temp (c\<lparr>read_tout_flag := False\<rparr>) w))
   \<and> keeps_open_drain c w (snd (action_status (c\<lparr>read_tout_flag := False\<rparr>) w))
   \<and> keeps_open_drain c w (snd (action_set_thresholds c set_th set_tl new_th new_tl w))
   \<and> keeps_open_drain c w (snd (action_set_oneshot (gpio_bus c) w))
   \<and> pins (snd (read_tout (c\<lparr>read_tout_flag := True\<rparr>) w)) (gpio_pin c)
       = (pins w (gpio_pin c))\<lparr>pmode := PI_INPUT, ppud := PI_PUD_OFF\<rparr>
   \<and> new_events w (snd (read_tout (c\<lparr>read_tout_flag := True\<rparr>) w))
       = [SetMode (gpio_pin c) PI_INPUT, SetPullUpDown (gpio_pin c) PI_PUD_OFF,
          GpioRead (gpio_pin c) (line w (nsample w))]"
proof -
  have release: "keeps_open_drain c w (ow_release c w)"
    by (simp add: keeps_open_drain_def open_drain_def extends_trace_def new_events_def
          drives_high_def gpio_defs)
  have drive_low: "keeps_open_drain c w (ow_drive_low c w)"
    by (simp add: keeps_open_drain_def open_drain_def extends_trace_def new_events_def
          drives_high_def gpio_defs)
  have tout_pin: "pins (snd (read_tout (c\<lparr>read_tout_flag := True\<rparr>) w)) (gpio_pin c)
       = (pins w (gpio_pin c))\<lparr>pmode := PI_INPUT, ppud := PI_PUD_OFF\<rparr>"
    by (simp add: read_tout_def gpio_defs Let_def)
  have tout_events: "new_events w (snd (read_tout (c\<lparr>read_tout_flag := True\<rparr>) w))
       = [SetMode (gpio_pin c) PI_INPUT, SetPullUpDown (gpio_pin c) PI_PUD_OFF,
          GpioRead (gpio_pin c) (line w (nsample w))]"
    by (simp add: read_tout_def gpio_defs Let_def new_events_def)
  show ?thesis
    by (intro conjI release drive_low tout_pin tout_events
          keeps_reset keeps_write_bit keeps_read_bit keeps_write_byte keeps_read_byte
          run_op_keeps keeps_read_rom respects_search_rom keeps_action_scan keeps_action_probe
          keeps_action_read_temp keeps_action_status keeps_action_set_thresholds
          keeps_set_oneshot)
qed

text \<open>
  Claim C8 as stated fails: after \<open>read_tout\<close> with \<open>--read-tout\<close> the released data pin
  is an input whose pull-up is disabled.
\<close>

theorem read_tout_breaks_open_drain:
  "open_drain (default_config\<lparr>read_tout_flag := True\<rparr>)
     (ow_release (default_config\<lparr>read_tout_flag := True\<rparr>) idle_world)
   \<and> \<not> open_drain (default_config\<lparr>read_tout_flag := True\<rparr>)
       (snd (read_tout (default_config\<lparr>read_tout_flag := True\<rparr>)
              (ow_release (default_config\<lparr>read_tout_flag := True\<rparr>) idle_world)))"
  by (simp add: open_drain_def read_tout_def gpio_defs default_config_def idle_world_def Let_def)

subsection \<open>Mode switch\<close>

lemma read_status_gpio:
  "ds1821_read_status_reg (gpio_bus c) w =
     (if line w (nsample w) then (None, after c (ev_reset c True) 1 w)
      else (Some (byte_of_bits (samples w 1 8)), after c (ev_read_status c (samples w 1 8)) 9 w))"
  by (simp add: ds1821_read_status_reg_shape read_cmd_gpio ev_read_status_def)

lemma write_status_gpio:
  "ds1821_write_status_reg (gpio_bus c) v w =
     (if line w (nsample w) then (None, after c (ev_reset c True) 1 w)
      else (Some (), after c (ev_write_status c v) 1 w))"
  by (simp add: ds1821_write_status_reg_shape write_cmd_gpio ev_write_status_def)

text \<open>
  Claim C9. When every reset of the sequence is answered by a presence pulse, the pin
  activity of \<open>action_set_oneshot\<close> is: a status read; a direct status write and a status
  read; a Skip-ROM status write and a Skip-ROM status read; a direct status write, a status
  read and a Skip-ROM status read. The value written is \<open>0x01\<close> each time, and the result
  is 0.
\<close>

theorem mode_switch_sequence:
  assumes "list_all (\<lambda>k. \<not> line w (nsample w + k)) [0, 9, 10, 19, 20, 29, 30, 39]"
  shows "fst (action_set_oneshot (gpio_bus c) w) = 0
         \<and> new_events w (snd (action_set_oneshot (gpio_bus c) w)) =
             ev_read_status c (samples w 1 8)
             @ ev_write_status c 0x01
             @ ev_read_status c (samples w 11 8)
             @ ev_write_status_skiprom c 0x01
             @ ev_read_status_skiprom c (samples w 21 8)
             @ ev_write_status c 0x01
             @ ev_read_status c (samples w 31 8)
             @ ev_read_status_skiprom c (samples w 40 8)"
proof -
  from assms have p:
    "\<not> line w (nsample w)" "\<not> line w (nsample w + 9)" "\<not> line w (nsample w + 10)"
    "\<not> line w (nsample w + 19)" "\<not> line w (nsample w + 20)" "\<not> line w (nsample w + 29)"
    "\<not> line w (nsample w + 30)" "\<not> line w (nsample w + 39)"
    by simp_all
  show ?thesis
    using p
    by (simp add: action_set_oneshot_def read_status_gpio write_status_gpio
          write_status_skiprom_gpio read_status_skiprom_gpio DS1821_STATUS_1SHOT_def)
qed

theorem mode_switch_sequence_witness:
  "list_all (\<lambda>k. \<not> line present_world (nsample present_world + k))
     [0, 9, 10, 19, 20, 29, 30, 39]
   \<and> fst (action_set_oneshot (gpio_bus default_config) present_world) = 0"
proof -
  have h: "list_all (\<lambda>k. \<not> line present_world (nsample present_world + k))
             [0, 9, 10, 19, 20, 29, 30, 39]"
    by (simp add: present_world_def idle_world_def)
  with mode_switch_sequence [of present_world default_config] show ?thesis
    by blast
qed

subsection \<open>Command line\<close>

text \<open>
  Claim C4 fails for an unrecognised action name: \<open>main\<close> sets \<open>ret = 1\<close>, reports the
  unknown action, and then returns \<open>ret < 0 ? 1 : 0\<close>, which is 0.
\<close>

theorem unknown_action_exit_code:
  "fst (main [''ds1821_program'', ''bogus''] True True w) = 0
   \<and> diag (snd (main [''ds1821_program'', ''bogus''] True True w))
       = diag w @ [Unknown_action ''bogus'']"
  by (simp add: main_def init_args_def default_config_def not_dash_def dispatch_def say_def
        gpio_defs Let_def)

lemma unknown_option_exit_code:
  "fst (main [''ds1821_program'', ''--bogus''] r i w) = 1"
  by (simp add: main_def init_args_def default_config_def not_dash_def)

lemma parse_set_th:
  "parse_args [''set-th'', s] init_args
     = Inr (init_args\<lparr>action := Some ''set-th'', arg_th := ucast (atoi s), has_th := True\<rparr>)"
  by simp

lemma parse_set_tl:
  "parse_args [''set-tl'', s] init_args
     = Inr (init_args\<lparr>action := Some ''set-tl'', arg_tl := ucast (atoi s), has_tl := True\<rparr>)"
  by simp

lemma sint_i8_of_int: "sint (word_of_int k :: u8) = (k + 128) mod 256 - 128"
  by (simp add: signed_of_int signed_take_bit_eq_take_bit_shift take_bit_eq_mod)

lemma uint_u8_of_int: "uint (word_of_int k :: u8) = k mod 256"
  by (simp add: uint_word_of_int take_bit_eq_mod)

lemma same_outcomeE:
  assumes "same_outcome r r'"
  obtains x w w' where "r = (x, w)" "r' = (x, w')" "obs_eq w w'"
  using assms by (cases r; cases r') (auto simp: same_outcome_def)

lemma obs_eq_samples: "obs_eq w w' \<Longrightarrow> samples w k n = samples w' k n"
  by (simp add: obs_eq_def samples_def)

lemma obs_eq_after: "obs_eq w w' \<Longrightarrow> obs_eq (after c e k w) (after c e' k w')"
  by (simp add: obs_eq_def)

lemma read_cmd_same:
  "obs_eq w w' \<Longrightarrow> same_outcome (read_cmd (gpio_bus c) cmd w) (read_cmd (gpio_bus c) cmd w')"
  using obs_eq_samples [of w w' 1 8]
  by (auto simp: same_outcome_def read_cmd_gpio obs_eq_after) (simp_all add: obs_eq_def)

lemma write_cmd_same:
  "obs_eq w w' \<Longrightarrow>
   same_outcome (write_cmd (gpio_bus c) cmd v w) (write_cmd (gpio_bus c) cmd v' w')"
  by (auto simp: same_outcome_def write_cmd_gpio obs_eq_after) (simp_all add: obs_eq_def)

lemma read_both_same:
  assumes "obs_eq w w'"
  shows "same_outcome (read_both (gpio_bus c) w) (read_both (gpio_bus c) w')"
proof -
  from read_cmd_same [OF assms, of c DS1821_CMD_READ_TH]
  obtain r0 w1 w1' where 0: "read_cmd (gpio_bus c) DS1821_CMD_READ_TH w = (r0, w1)"
    "read_cmd (gpio_bus c) DS1821_CMD_READ_TH w' = (r0, w1')" "obs_eq w1 w1'"
    by (rule same_outcomeE)
  show ?thesis
  proof (cases r0)
    case None
    with 0 show ?thesis by (simp add: read_both_def ds1821_read_th_shape same_outcome_def)
  next
    case (Some h)
    from read_cmd_same [OF 0(3), of c DS1821_CMD_READ_TL]
    obtain r1 w2 w2' where 1: "read_cmd (gpio_bus c) DS1821_CMD_READ_TL w1 = (r1, w2)"
      "read_cmd (gpio_bus c) DS1821_CMD_READ_TL w1' = (r1, w2')" "obs_eq w2 w2'"
      by (rule same_outcomeE)
    from Some 0 1 show ?thesis
      by (cases r1) (simp_all add: read_both_def ds1821_read_th_shape ds1821_read_tl_shape same_outcome_def)
  qed
qed

lemma obs_eq_say: "obs_eq w w' \<Longrightarrow> obs_eq (say m w) (say m w')"
  by (simp add: obs_eq_def say_def)

lemma set_thresholds_same:
  assumes "obs_eq w w'"
  shows "same_outcome (action_set_thresholds c a b v1 v2 w)
                      (action_set_thresholds c a b v1' v2' w')"
proof -
  from read_both_same [OF assms, of c]
  obtain r0 w1 w1' where 0: "read_both (gpio_bus c) w = (r0, w1)"
    "read_both (gpio_bus c) w' = (r0, w1')" "obs_eq w1 w1'"
    by (rule same_outcomeE)
  show ?thesis
  proof (cases r0)
    case None
    with 0 show ?thesis by (simp add: action_set_thresholds_def same_outcome_def)
  next
    case s0: (Some t0)
    have "same_outcome (if a then ds1821_write_th (gpio_bus c) v1 w1 else (Some (), w1))
                       (if a then ds1821_write_th (gpio_bus c) v1' w1' else (Some (), w1'))"
      using 0(3) by (simp add: ds1821_write_th_shape write_cmd_same) (simp add: same_outcome_def)
    then obtain r1 w2 w2' where 1:
      "(if a then ds1821_write_th (gpio_bus c) v1 w1 else (Some (), w1)) = (r1, w2)"
      "(if a then ds1821_write_th (gpio_bus c) v1' w1' else (Some (), w1')) = (r1, w2')"
      "obs_eq w2 w2'"
      by (rule same_outcomeE)
    show ?thesis
    proof (cases r1)
      case None
      with s0 0 1 show ?thesis by (simp add: action_set_thresholds_def same_outcome_def)
    next
      case s1: (Some t1)
      have "same_outcome (if b then ds1821_write_tl (gpio_bus c) v2 w2 else (Some (), w2))
                         (if b then ds1821_write_tl (gpio_bus c) v2' w2' else (Some (), w2'))"
        using 1(3) by (simp add: ds1821_write_tl_shape write_cmd_same) (simp add: same_outcome_def)
      then obtain r2 w3 w3' where 2:
        "(if b then ds1821_write_tl (gpio_bus c) v2 w2 else (Some (), w2)) = (r2, w3)"
        "(if b then ds1821_write_tl (gpio_bus c) v2' w2' else (Some (), w2')) = (r2, w3')"
        "obs_eq w3 w3'"
        by (rule same_outcomeE)
      show ?thesis
      proof (cases r2)
        case None
        with s0 s1 0 1 2 show ?thesis by (simp add: action_set_thresholds_def same_outcome_def)
      next
        case s2: (Some t2)
        from read_both_same [OF 2(3), of c]
        obtain r3 w4 w4' where 3: "read_both (gpio_bus c) w3 = (r3, w4)"
          "read_both (gpio_bus c) w3' = (r3, w4')" "obs_eq w4 w4'"
          by (rule same_outcomeE)
        show ?thesis
        proof (cases r3)
          case None
          with s0 s1 s2 0 1 2 3 show ?thesis
            by (simp add: action_set_thresholds_def same_outcome_def)
        next
          case (Some t3)
          with s0 s1 s2 0 1 2 3 show ?thesis
            by (cases t3) (simp add: action_set_thresholds_def same_outcome_def obs_eq_say)
        qed
      qed
    qed
  qed
qed

lemma main_set_th_general:
  "main [p, ''set-th'', s] r i w =
     (if \<not> r then (1, say Not_root w)
      else if \<not> i then (1, say Init_failed w)
      else (let (ret, w4) = action_set_thresholds default_config True False
                              (ucast (atoi s)) 0
                              (gpioDelay 1000 (ow_release default_config w))
            in (if ret < 0 then 1 else 0, w4)))"
  by (simp add: main_def init_args_def dispatch_def Let_def default_config_def)

lemma main_set_tl_general:
  "main [p, ''set-tl'', s] r i w =
     (if \<not> r then (1, say Not_root w)
      else if \<not> i then (1, say Init_failed w)
      else (let (ret, w4) = action_set_thresholds default_config False True
                              0 (ucast (atoi s))
                              (gpioDelay 1000 (ow_release default_config w))
            in (if ret < 0 then 1 else 0, w4)))"
  by (simp add: main_def init_args_def dispatch_def Let_def default_config_def)

lemma obs_eq_refl: "obs_eq w w"
  by (simp add: obs_eq_def)

lemma same_outcome_exit:
  assumes "same_outcome r r'"
  shows "same_outcome (case r of (ret, w4) \<Rightarrow> (if ret < 0 then 1 else 0 :: int, w4))
                      (case r' of (ret, w4) \<Rightarrow> (if ret < 0 then 1 else 0, w4))"
  using assms by (cases r; cases r') (simp add: same_outcome_def)

text \<open>The decimal text of an integer is read back by \<open>strtol\<close>.\<close>

lemma of_char_digit: "d < 10 \<Longrightarrow> (of_char (digit_char d) :: nat) = 48 + d"
  by (simp add: digit_char_def)

lemma is_digit_digit_char: "d < 10 \<Longrightarrow> is_digit (digit_char d)"
  by (simp add: is_digit_def of_char_digit)

lemma digits_val_append:
  "list_all is_digit xs \<Longrightarrow> digits_val acc (xs @ ys) = digits_val (digits_val acc xs) ys"
  by (induction xs arbitrary: acc) simp_all

lemma decimal_nat_digits: "list_all is_digit (decimal_nat n) \<and> decimal_nat n \<noteq> []"
proof (induction n rule: decimal_nat.induct)
  case (1 n)
  show ?case
  proof (cases "n < 10")
    case True
    then show ?thesis by (subst decimal_nat.simps, subst decimal_nat.simps) (simp add: is_digit_digit_char)
  next
    case False
    with 1 show ?thesis
      by (subst decimal_nat.simps, subst (2) decimal_nat.simps) (simp add: is_digit_digit_char)
  qed
qed

lemma digits_val_decimal_nat: "digits_val 0 (decimal_nat n) = int n"
proof (induction n rule: decimal_nat.induct)
  case (1 n)
  show ?case
  proof (cases "n < 10")
    case True
    then show ?thesis
      by (subst decimal_nat.simps) (simp add: is_digit_digit_char of_char_digit)
  next
    case False
    then have "digits_val 0 (decimal_nat n)
               = digits_val (int (n div 10)) [digit_char (n mod 10)]"
      using 1 decimal_nat_digits [of "n div 10"]
      by (subst decimal_nat.simps) (simp add: digits_val_append)
    also have "\<dots> = int (n div 10) * 10 + int (n mod 10)"
      by (simp add: is_digit_digit_char of_char_digit)
    also have "\<dots> = int n" by presburger
    finally show ?thesis .
  qed
qed

lemma numeral_val_digits:
  assumes "xs \<noteq> []" "list_all is_digit xs"
  shows "numeral_val xs = digits_val 0 xs"
proof -
  from assms obtain ch cs where xs: "xs = ch # cs" and d: "is_digit ch"
    by (cases xs) auto
  from d have "\<not> is_space ch" "ch \<noteq> CHR ''-''" "ch \<noteq> CHR ''+''"
    by (auto simp: is_digit_def is_space_def)
  with xs d show ?thesis by simp
qed

lemma numeral_val_decimal: "numeral_val (decimal k) = k"
proof (cases "k < 0")
  case True
  have "\<not> is_space CHR ''-''" by (simp add: is_space_def)
  with True show ?thesis
    by (simp add: decimal_def digits_val_decimal_nat)
next
  case False
  then show ?thesis
    using decimal_nat_digits [of "nat k"]
    by (simp add: decimal_def numeral_val_digits digits_val_decimal_nat)
qed

lemma atoi_decimal: "atoi (decimal (sint n)) = n"
proof -
  have "- (2 ^ 31) \<le> sint n" "sint n < 2 ^ 31"
    using sint_ge [of n] sint_lt [of n] by simp_all
  then have "strtol (decimal (sint n)) = sint n"
    by (simp add: strtol_def numeral_val_decimal LONG_MAX_def LONG_MIN_def Let_def)
  then show ?thesis by (simp add: atoi_def)
qed

lemma ucast_of_int_i32: "(ucast (word_of_int k :: i32) :: u8) = word_of_int k"
  by (rule bit_word_eqI) (auto simp: bit_ucast_iff bit_word_of_int_iff)

lemma sint_u8_of_i32: "sint (ucast (n :: i32) :: u8) = (sint n + 128) mod 256 - 128"
  using ucast_of_int_i32 [of "sint n"] sint_i8_of_int [of "sint n"] by simp

lemma strtol_decimal_long: "strtol (decimal (sint (m :: 64 word))) = sint m"
proof -
  have "- (2 ^ 63) \<le> sint m" "sint m < 2 ^ 63"
    using sint_ge [of m] sint_lt [of m] by simp_all
  then show ?thesis
    by (simp add: strtol_def numeral_val_decimal LONG_MAX_def LONG_MIN_def Let_def)
qed

lemma byte_of_long:
  "sint (ucast (atoi (decimal (sint (m :: 64 word)))) :: u8) = (sint m + 128) mod 256 - 128"
  unfolding atoi_def strtol_decimal_long ucast_of_int_i32 by (rule sint_i8_of_int)

lemma atoi_saturates:
  "atoi ''9223372036854775808'' = - 1"
  "atoi ''-9223372036854775809'' = 0"
  "(ucast (atoi ''9223372036854775808'') :: u8) = 0xFF"
  "(ucast (atoi ''3000000000'') :: u8) = 0x00"
  by (simp_all add: atoi_def strtol_def LONG_MAX_def LONG_MIN_def is_space_def is_digit_def)

lemma decimal_200: "decimal 200 = ''200''"
  by code_simp

lemma atoi_200: "atoi ''200'' = 200"
  by (simp add: atoi_def strtol_def LONG_MAX_def LONG_MIN_def is_space_def is_digit_def)

text \<open>The threshold update in closed form.\<close>

lemma read_both_gpio:
  assumes "\<not> line w (nsample w)" "\<not> line w (nsample w + 9)"
  shows "read_both (gpio_bus c) w =
           (Some (byte_of_bits (samples w 1 8), byte_of_bits (samples w 10 8)),
            after c (ev_read_reg c DS1821_CMD_READ_TH (samples w 1 8)
                     @ ev_read_reg c DS1821_CMD_READ_TL (samples w 10 8)) 18 w)"
  using assms
  by (simp add: read_both_def ds1821_read_th_shape ds1821_read_tl_shape read_cmd_gpio
        ev_read_reg_def)

lemma write_reg_gpio:
  assumes "\<not> line w (nsample w)"
  shows "write_cmd (gpio_bus c) cmd v w = (Some (), after c (ev_write_reg c cmd v) 1 w)"
  using assms by (simp add: write_cmd_gpio ev_write_reg_def)

lemma set_th_gpio:
  assumes "list_all (\<lambda>k. \<not> line w (nsample w + k)) [0, 9, 18, 19, 28]"
  shows "action_set_thresholds c True False v v' w =
           (0, (if sint (byte_of_bits (samples w 20 8)) \<le> sint (byte_of_bits (samples w 29 8))
                then say Warn_TL_ge_TH else id)
                 (after c (ev_read_reg c DS1821_CMD_READ_TH (samples w 1 8)
                           @ ev_read_reg c DS1821_CMD_READ_TL (samples w 10 8)
                           @ ev_write_reg c DS1821_CMD_WRITE_TH v
                           @ ev_read_reg c DS1821_CMD_READ_TH (samples w 20 8)
                           @ ev_read_reg c DS1821_CMD_READ_TL (samples w 29 8)) 37 w))"
proof -
  from assms have p: "\<not> line w (nsample w)" "\<not> line w (nsample w + 9)"
    "\<not> line w (nsample w + 18)" "\<not> line w (nsample w + 19)" "\<not> line w (nsample w + 28)"
    by simp_all
  show ?thesis
    using p
    by (simp add: action_set_thresholds_def read_both_gpio write_reg_gpio
          ds1821_write_th_shape add.assoc)
qed

lemma set_tl_gpio:
  assumes "list_all (\<lambda>k. \<not> line w (nsample w + k)) [0, 9, 18, 19, 28]"
  shows "action_set_thresholds c False True v' v w =
           (0, (if sint (byte_of_bits (samples w 20 8)) \<le> sint (byte_of_bits (samples w 29 8))
                then say Warn_TL_ge_TH else id)
                 (after c (ev_read_reg c DS1821_CMD_READ_TH (samples w 1 8)
                           @ ev_read_reg c DS1821_CMD_READ_TL (samples w 10 8)
                           @ ev_write_reg c DS1821_CMD_WRITE_TL v
                           @ ev_read_reg c DS1821_CMD_READ_TH (samples w 20 8)
                           @ ev_read_reg c DS1821_CMD_READ_TL (samples w 29 8)) 37 w))"
proof -
  from assms have p: "\<not> line w (nsample w)" "\<not> line w (nsample w + 9)"
    "\<not> line w (nsample w + 18)" "\<not> line w (nsample w + 19)" "\<not> line w (nsample w + 28)"
    by simp_all
  show ?thesis
    using p
    by (simp add: action_set_thresholds_def read_both_gpio write_reg_gpio
          ds1821_write_tl_shape add.assoc)
qed

lemma startup_proj:
  "line (gpioDelay 1000 (ow_release c w)) = line w"
  "nsample (gpioDelay 1000 (ow_release c w)) = nsample w"
  "diag (gpioDelay 1000 (ow_release c w)) = diag w"
  "trace (gpioDelay 1000 (ow_release c w)) = trace w @ ev_release c @ [GpioDelay 1000]"
  "samples (gpioDelay 1000 (ow_release c w)) k n = samples w k n"
  by (simp_all add: gpio_defs ev_defs samples_def)

lemma main_set_th_run:
  assumes "list_all (\<lambda>k. \<not> line w (nsample w + k)) [0, 9, 18, 19, 28]"
  shows "fst (main [p, ''set-th'', s] True True w) = 0"
    and "new_events w (snd (main [p, ''set-th'', s] True True w)) =
           ev_release default_config @ [GpioDelay 1000]
           @ ev_read_reg default_config DS1821_CMD_READ_TH (samples w 1 8)
           @ ev_read_reg default_config DS1821_CMD_READ_TL (samples w 10 8)
           @ ev_write_reg default_config DS1821_CMD_WRITE_TH (ucast (atoi s))
           @ ev_read_reg default_config DS1821_CMD_READ_TH (samples w 20 8)
           @ ev_read_reg default_config DS1821_CMD_READ_TL (samples w 29 8)"
    and "diag (snd (main [p, ''set-th'', s] True True w)) =
           diag w @ (if sint (byte_of_bits (samples w 20 8)) \<le> sint (byte_of_bits (samples w 29 8))
                     then [Warn_TL_ge_TH] else [])"
proof -
  let ?w0 = "gpioDelay 1000 (ow_release default_config w)"
  from assms have "list_all (\<lambda>k. \<not> line ?w0 (nsample ?w0 + k)) [0, 9, 18, 19, 28]"
    by (simp add: startup_proj)
  note run = set_th_gpio [OF this, of default_config "ucast (atoi s)" 0]
  show "fst (main [p, ''set-th'', s] True True w) = 0"
    unfolding main_set_th_general by (simp add: run)
  show "new_events w (snd (main [p, ''set-th'', s] True True w)) =
           ev_release default_config @ [GpioDelay 1000]
           @ ev_read_reg default_config DS1821_CMD_READ_TH (samples w 1 8)
           @ ev_read_reg default_config DS1821_CMD_READ_TL (samples w 10 8)
           @ ev_write_reg default_config DS1821_CMD_WRITE_TH (ucast (atoi s))
           @ ev_read_reg default_config DS1821_CMD_READ_TH (samples w 20 8)
           @ ev_read_reg default_config DS1821_CMD_READ_TL (samples w 29 8)"
    unfolding main_set_th_general
    by (simp add: run startup_proj new_events_def say_def)
  show "diag (snd (main [p, ''set-th'', s] True True w)) =
           diag w @ (if sint (byte_of_bits (samples w 20 8)) \<le> sint (byte_of_bits (samples w 29 8))
                     then [Warn_TL_ge_TH] else [])"
    unfolding main_set_th_general
    by (simp add: run startup_proj say_def)
qed

lemma main_set_tl_run:
  assumes "list_all (\<lambda>k. \<not> line w (nsample w + k)) [0, 9, 18, 19, 28]"
  shows "fst (main [p, ''set-tl'', s] True True w) = 0"
    and "new_events w (snd (main [p, ''set-tl'', s] True True w)) =
           ev_release default_config @ [GpioDelay 1000]
           @ ev_read_reg default_config DS1821_CMD_READ_TH (samples w 1 8)
           @ ev_read_reg default_config DS1821_CMD_READ_TL (samples w 10 8)
           @ ev_write_reg default_config DS1821_CMD_WRITE_TL (ucast (atoi s))
           @ ev_read_reg default_config DS1821_CMD_READ_TH (samples w 20 8)
           @ ev_read_reg default_config DS1821_CMD_READ_TL (samples w 29 8)"
    and "diag (snd (main [p, ''set-tl'', s] True True w)) =
           diag w @ (if sint (byte_of_bits (samples w 20 8)) \<le> sint (byte_of_bits (samples w 29 8))
                     then [Warn_TL_ge_TH] else [])"
proof -
  let ?w0 = "gpioDelay 1000 (ow_release default_config w)"
  from assms have "list_all (\<lambda>k. \<not> line ?w0 (nsample ?w0 + k)) [0, 9, 18, 19, 28]"
    by (simp add: startup_proj)
  note run = set_tl_gpio [OF this, of default_config 0 "ucast (atoi s)"]
  show "fst (main [p, ''set-tl'', s] True True w) = 0"
    unfolding main_set_tl_general by (simp add: run)
  show "new_events w (snd (main [p, ''set-tl'', s] True True w)) =
           ev_release default_config @ [GpioDelay 1000]
           @ ev_read_reg default_config DS1821_CMD_READ_TH (samples w 1 8)
           @ ev_read_reg default_config DS1821_CMD_READ_TL (samples w 10 8)
           @ ev_write_reg default_config DS1821_CMD_WRITE_TL (ucast (atoi s))
           @ ev_read_reg default_config DS1821_CMD_READ_TH (samples w 20 8)
           @ ev_read_reg default_config DS1821_CMD_READ_TL (samples w 29 8)"
    unfolding main_set_tl_general
    by (simp add: run startup_proj new_events_def say_def)
  show "diag (snd (main [p, ''set-tl'', s] True True w)) =
           diag w @ (if sint (byte_of_bits (samples w 20 8)) \<le> sint (byte_of_bits (samples w 29 8))
                     then [Warn_TL_ge_TH] else [])"
    unfolding main_set_tl_general
    by (simp add: run startup_proj say_def)
qed

text \<open>
  Claim C10. The argument of \<open>set-th\<close> and \<open>set-tl\<close> is accepted whatever its text: the
  argument loop stores the low eight bits of \<open>atoi\<close> of it, which read as a signed byte
  are the parsed value reduced modulo 256 into \<open>-128..127\<close>. The decimal text of every
  \<open>int\<close> is parsed as that \<open>int\<close>, and for every integer in the range of \<open>long\<close> the byte
  is the integer reduced modulo 256 (200 becomes \<open>-56\<close>). With the device answering every
  reset, the run of \<open>main\<close> is: release and start-up delay, TH and TL read, the write
  transaction carrying that byte after the function code, TH and TL read again; the result
  is 0 and the only message is the TL-above-TH warning, which depends on the bytes read
  back. No range check exists: for any two arguments the exit code and the diagnostics of
  the run are the same.
\<close>

theorem threshold_argument_wraps:
  "parse_args [''set-th'', s] init_args
     = Inr (init_args\<lparr>action := Some ''set-th'', arg_th := ucast (atoi s), has_th := True\<rparr>)
   \<and> parse_args [''set-tl'', s] init_args
     = Inr (init_args\<lparr>action := Some ''set-tl'', arg_tl := ucast (atoi s), has_tl := True\<rparr>)
   \<and> sint (ucast (atoi s) :: u8) = (sint (atoi s) + 128) mod 256 - 128
   \<and> atoi (decimal (sint (n :: i32))) = n
   \<and> sint (ucast (atoi (decimal (sint (m :: 64 word)))) :: u8) = (sint m + 128) mod 256 - 128
   \<and> decimal 200 = ''200''
   \<and> sint (ucast (atoi ''200'') :: u8) = - 56
   \<and> (list_all (\<lambda>k. \<not> line w (nsample w + k)) [0, 9, 18, 19, 28] \<longrightarrow>
         fst (main [p, ''set-th'', s] True True w) = 0
       \<and> new_events w (snd (main [p, ''set-th'', s] True True w)) =
           ev_release default_config @ [GpioDelay 1000]
           @ ev_read_reg default_config DS1821_CMD_READ_TH (samples w 1 8)
           @ ev_read_reg default_config DS1821_CMD_READ_TL (samples w 10 8)
           @ ev_write_reg default_config DS1821_CMD_WRITE_TH (ucast (atoi s))
           @ ev_read_reg default_config DS1821_CMD_READ_TH (samples w 20 8)
           @ ev_read_reg default_config DS1821_CMD_READ_TL (samples w 29 8)
       \<and> diag (snd (main [p, ''set-th'', s] True True w)) =
           diag w @ (if sint (byte_of_bits (samples w 20 8)) \<le> sint (byte_of_bits (samples w 29 8))
                     then [Warn_TL_ge_TH] else [])
       \<and> fst (main [p, ''set-tl'', s] True True w) = 0
       \<and> new_events w (snd (main [p, ''set-tl'', s] True True w)) =
           ev_release default_config @ [GpioDelay 1000]
           @ ev_read_reg default_config DS1821_CMD_READ_TH (samples w 1 8)
           @ ev_read_reg default_config DS1821_CMD_READ_TL (samples w 10 8)
           @ ev_write_reg default_config DS1821_CMD_WRITE_TL (ucast (atoi s))
           @ ev_read_reg default_config DS1821_CMD_READ_TH (samples w 20 8)
           @ ev_read_reg default_config DS1821_CMD_READ_TL (samples w 29 8)
       \<and> diag (snd (main [p, ''set-tl'', s] True True w)) =
           diag w @ (if sint (byte_of_bits (samples w 20 8)) \<le> sint (byte_of_bits (samples w 29 8))
                     then [Warn_TL_ge_TH] else []))
   \<and> same_outcome (main [p, ''set-th'', s] r i w) (main [p, ''set-th'', s'] r i w)
   \<and> same_outcome (main [p, ''set-tl'', s] r i w) (main [p, ''set-tl'', s'] r i w)"
proof -
  have ex: "sint (ucast (atoi ''200'') :: u8) = - 56"
    unfolding atoi_200 by simp
  have so_th: "same_outcome (main [p, ''set-th'', s] r i w) (main [p, ''set-th'', s'] r i w)"
    unfolding main_set_th_general Let_def
    by (auto intro!: same_outcome_exit set_thresholds_same simp: obs_eq_refl)
       (simp_all add: same_outcome_def obs_eq_refl)
  have so_tl: "same_outcome (main [p, ''set-tl'', s] r i w) (main [p, ''set-tl'', s'] r i w)"
    unfolding main_set_tl_general Let_def
    by (auto intro!: same_outcome_exit set_thresholds_same simp: obs_eq_refl)
       (simp_all add: same_outcome_def obs_eq_refl)
  show ?thesis
    by (intro conjI impI parse_set_th parse_set_tl atoi_decimal sint_u8_of_i32 byte_of_long decimal_200 ex
          so_th so_tl main_set_th_run main_set_tl_run)
qed

theorem threshold_argument_wraps_witness:
  "list_all (\<lambda>k. \<not> line present_world (nsample present_world + k)) [0, 9, 18, 19, 28]
   \<and> fst (main [''ds1821_program'', ''set-th'', ''200''] True True present_world) = 0
   \<and> new_events present_world
        (snd (main [''ds1821_program'', ''set-th'', ''200''] True True present_world)) =
       ev_release default_config @ [GpioDelay 1000]
       @ ev_read_reg default_config DS1821_CMD_READ_TH (replicate 8 False)
       @ ev_read_reg default_config DS1821_CMD_READ_TL (replicate 8 False)
       @ ev_write_reg default_config DS1821_CMD_WRITE_TH 0xC8
       @ ev_read_reg default_config DS1821_CMD_READ_TH (replicate 8 False)
       @ ev_read_reg default_config DS1821_CMD_READ_TL (replicate 8 False)"
proof -
  have h: "list_all (\<lambda>k. \<not> line present_world (nsample present_world + k)) [0, 9, 18, 19, 28]"
    by (simp add: present_world_def idle_world_def)
  have s: "samples present_world k 8 = replicate 8 False" for k
    by (simp add: samples_def present_world_def idle_world_def map_replicate_const)
  have v: "(ucast (atoi ''200'') :: u8) = 0xC8"
    unfolding atoi_200 by simp
  from threshold_argument_wraps [of "''200''" _ _ present_world "''ds1821_program''"] h
  show ?thesis
    unfolding s v by blast
qed

subsection \<open>Discovery\<close>

lemma length_rom_set [simp]: "length (rom_set rom p dir) = length rom"
  by (simp add: rom_set_def)

lemma div_mod_8_eq: "p div 8 = q div 8 \<Longrightarrow> p mod 8 = q mod 8 \<Longrightarrow> p = (q :: nat)"
  by (metis div_mult_mod_eq)

lemma rom_bit_rom_set:
  assumes "length rom = 8" "p < 64" "q < 64"
  shows "rom_bit (rom_set rom p dir) q = (if q = p then dir else rom_bit rom q)"
proof (cases "q div 8 = p div 8")
  case True
  have i: "p div 8 < length rom" using assms by simp
  have m: "p mod 8 < 8" "q mod 8 < 8" by simp_all
  show ?thesis
  proof (cases "q mod 8 = p mod 8")
    case same: True
    with True have "q = p" by (rule div_mod_8_eq)
    then show ?thesis
      using i by (simp add: rom_bit_def rom_set_def bit_simps)
  next
    case False
    with True have "q \<noteq> p" by auto
    then show ?thesis
      using i True False
      by (simp add: rom_bit_def rom_set_def bit_simps)
  qed
next
  case False
  then have "q \<noteq> p" by auto
  with False show ?thesis
    by (simp add: rom_bit_def rom_set_def)
qed

lemma rom_test_bit:
  "(rom ! (p div 8) AND push_bit (p mod 8) 1 \<noteq> 0) = rom_bit rom p"
proof -
  have "(rom ! (p div 8) AND push_bit (p mod 8) 1 \<noteq> 0) = bit (rom ! (p div 8)) (p mod 8)"
    by (simp add: and_exp_eq_0_iff_not_bit)
  then show ?thesis by (simp add: rom_bit_def)
qed

lemma rom_test_bit_exp:
  "(rom ! (p div 8) AND 2 ^ (p mod 8) = 0) = (\<not> rom_bit rom p)"
  by (simp add: rom_bit_def and_exp_eq_0_iff_not_bit)

lemma rom_ext:
  assumes "length r = 8" "length d = 8" "\<forall>p<64. rom_bit r p = rom_bit d p"
  shows "r = d"
proof (rule nth_equalityI)
  show "length r = length d" using assms by simp
next
  fix i assume "i < length r"
  then have i: "i < 8" using assms by simp
  show "r ! i = d ! i"
  proof (rule bit_word_eqI)
    fix n assume "n < LENGTH(8)"
    then have n: "n < 8" by simp
    then have "8 * i + n < 64" using i by simp
    with assms(3) have "rom_bit r (8 * i + n) = rom_bit d (8 * i + n)" by blast
    then show "bit (r ! i) n = bit (d ! i) n"
      using n by (simp add: rom_bit_def)
  qed
qed

lemma sim_bus_sel [simp]:
  "reset sim_bus = sim_reset"
  "write_bit sim_bus = sim_write_bit"
  "read_bit sim_bus = sim_read_bit"
  by (simp_all add: sim_bus_def)

lemma sim_read_id:
  "p < 64 \<Longrightarrow> sim_read_bit (sim_at devs A p)
     = (list_all (\<lambda>d. rom_bit d p) A, (sim_at devs A p)\<lparr>cmp_next := True\<rparr>)"
  by (simp add: sim_read_bit_def sim_at_def search_rom_bits_def)

lemma sim_read_cmp:
  "p < 64 \<Longrightarrow> sim_read_bit ((sim_at devs A p)\<lparr>cmp_next := True\<rparr>)
     = (list_all (\<lambda>d. \<not> rom_bit d p) A, sim_at devs A p)"
  by (simp add: sim_read_bit_def sim_at_def search_rom_bits_def)

lemma sim_write_dir:
  "sim_write_bit dir (sim_at devs A p) = sim_at devs (filter (\<lambda>d. rom_bit d p = dir) A) (p + 1)"
  by (simp add: sim_write_bit_def sim_at_def search_rom_bits_def)

lemma sim_search_start:
  "ow_write_byte sim_bus OW_CMD_SEARCH_ROM (snd (sim_reset s)) = sim_at (devices s) (devices s) 0"
  by (simp add: ow_write_byte_def write_byte_loop.simps sim_reset_def sim_write_bit_def
        sim_at_def search_rom_bits_def OW_CMD_SEARCH_ROM_def Let_def)

text \<open>One position of the pass where the two response bits are both clear.\<close>

lemma search_bits_discrepancy:
  assumes "bit_pos < 64" "read_bit B s = (False, s1)" "read_bit B s1 = (False, s2)"
  shows "search_bits B last_discrepancy bit_pos rom new_discrepancy s =
           (let (dir, nd) = tie_break last_discrepancy bit_pos (rom_bit rom bit_pos) new_discrepancy
            in search_bits B last_discrepancy (bit_pos + 1) (rom_set rom bit_pos dir) nd
                 (write_bit B dir s2))"
  using assms
  by (subst search_bits.simps)
     (simp add: tie_break_def rom_set_def rom_test_bit_exp Let_def)

lemma search_bits_unanimous:
  assumes "bit_pos < 64" "read_bit B s = (b, s1)" "read_bit B s1 = (\<not> b, s2)"
  shows "search_bits B last_discrepancy bit_pos rom new_discrepancy s =
           search_bits B last_discrepancy (bit_pos + 1) (rom_set rom bit_pos b) new_discrepancy
             (write_bit B b s2)"
  using assms
  by (subst search_bits.simps) (auto simp add: rom_set_def Let_def)

lemma search_bits_end:
  "search_bits B last_discrepancy 64 rom new_discrepancy s = (False, rom, new_discrepancy, s)"
  by (subst search_bits.simps) simp

lemma agree_rom_set:
  assumes "length rom = 8" "p < 64" "q \<le> p"
  shows "agree d (rom_set rom p dir) q = agree d rom q"
  using assms by (simp add: agree_def rom_bit_rom_set)

lemma agree_Suc: "agree d r (Suc p) = (agree d r p \<and> rom_bit d p = rom_bit r p)"
  by (auto simp: agree_def less_Suc_eq)

lemma agree_rom_set_Suc:
  assumes "length rom = 8" "p < 64"
  shows "agree d (rom_set rom p dir) (Suc p) = (agree d rom p \<and> rom_bit d p = dir)"
  using assms by (simp add: agree_Suc agree_rom_set rom_bit_rom_set)

lemma first_diff_rom_set_below:
  assumes "length rom = 8" "p < 64" "q < p"
  shows "first_diff (rom_set rom p dir) d q = first_diff rom d q"
  using assms by (simp add: first_diff_def agree_rom_set rom_bit_rom_set)

lemma first_diff_rom_set_at:
  assumes "length rom = 8" "p < 64"
  shows "first_diff (rom_set rom p dir) d p = (agree d rom p \<and> \<not> dir \<and> rom_bit d p)"
  using assms by (auto simp: first_diff_def agree_rom_set rom_bit_rom_set)

lemma branch_rom_set_below:
  assumes "length rom = 8" "p < 64" "q < p"
  shows "branch D (rom_set rom p dir) q = branch D rom q"
  using assms by (simp add: branch_def first_diff_rom_set_below)

lemma branch_rom_set_at:
  assumes "length rom = 8" "p < 64"
  shows "branch D (rom_set rom p dir) p = (\<not> dir \<and> (\<exists>d\<in>D. agree d rom p \<and> rom_bit d p))"
  using assms by (auto simp: branch_def first_diff_rom_set_at)

lemma recorded_step:
  assumes len: "length rom = 8" and p: "p < 64"
    and rec: "recorded D rom p nd"
    and nd': "nd' = (if \<not> dir \<and> (\<exists>d\<in>D. agree d rom p \<and> rom_bit d p) then int p else nd)"
  shows "recorded D (rom_set rom p dir) (Suc p) nd'"
proof (cases "\<not> dir \<and> (\<exists>d\<in>D. agree d rom p \<and> rom_bit d p)")
  case True
  then have "branch D (rom_set rom p dir) p"
    using len p by (simp add: branch_rom_set_at)
  with True nd' show ?thesis
    by (auto simp: recorded_def less_Suc_eq)
next
  case False
  then have nb: "\<not> branch D (rom_set rom p dir) p"
    using len p by (simp add: branch_rom_set_at)
  from False nd' have eq: "nd' = nd" by (simp only: if_False)
  from rec show ?thesis
    unfolding recorded_def eq
  proof (elim disjE conjE)
    assume "nd = - 1" "\<forall>q<p. \<not> branch D rom q"
    then show "(nd = - 1 \<and> (\<forall>q<Suc p. \<not> branch D (rom_set rom p dir) q)) \<or>
      (0 \<le> nd \<and> nat nd < Suc p \<and> branch D (rom_set rom p dir) (nat nd) \<and>
       (\<forall>q<Suc p. branch D (rom_set rom p dir) q \<longrightarrow> int q \<le> nd))"
      using nb len p by (auto simp: less_Suc_eq branch_rom_set_below)
  next
    assume "0 \<le> nd" "nat nd < p" "branch D rom (nat nd)" "\<forall>q<p. branch D rom q \<longrightarrow> int q \<le> nd"
    then show "(nd = - 1 \<and> (\<forall>q<Suc p. \<not> branch D (rom_set rom p dir) q)) \<or>
      (0 \<le> nd \<and> nat nd < Suc p \<and> branch D (rom_set rom p dir) (nat nd) \<and>
       (\<forall>q<Suc p. branch D (rom_set rom p dir) q \<longrightarrow> int q \<le> nd))"
      using nb len p by (auto simp: less_Suc_eq branch_rom_set_below)
  qed
qed

lemma pass_inv_step:
  assumes inv: "pass_inv devs ld r p rom nd A" and p: "p < 64"
    and c1: "\<exists>d\<in>set A. rom_bit d p = dir"
    and c2: "int p < ld \<longrightarrow> dir = rom_bit r p"
    and c3: "int p = ld \<longrightarrow> dir"
    and c4: "ld < int p \<longrightarrow> dir \<longrightarrow> (\<forall>d\<in>set A. rom_bit d p)"
    and c5: "nd' = (if \<not> dir \<and> (\<exists>d\<in>set A. rom_bit d p) then int p else nd)"
  shows "pass_inv devs ld r (Suc p) (rom_set rom p dir) nd' (filter (\<lambda>d. rom_bit d p = dir) A)"
proof -
  let ?rom = "rom_set rom p dir"
  from inv have len: "length rom = 8"
    and A: "A = filter (\<lambda>d. agree d rom p) devs"
    and i2: "\<forall>q. p \<le> q \<longrightarrow> q < 64 \<longrightarrow> rom_bit rom q = rom_bit r q"
    and i3: "\<forall>q<p. int q < ld \<longrightarrow> rom_bit rom q = rom_bit r q"
    and i4: "0 \<le> ld \<and> nat ld < p \<longrightarrow> rom_bit rom (nat ld)"
    and i5: "\<forall>q<p. ld < int q \<longrightarrow> rom_bit rom q \<longrightarrow> (\<forall>d\<in>set devs. agree d rom q \<longrightarrow> rom_bit d q)"
    and i6: "recorded (set devs) rom p nd"
    by (simp_all add: pass_inv_def)
  have setA: "set A = {d \<in> set devs. agree d rom p}"
    by (simp add: A)
  have bit_other: "rom_bit ?rom q = rom_bit rom q" if "q < 64" "q \<noteq> p" for q
    using that len p by (simp add: rom_bit_rom_set)
  have bit_at: "rom_bit ?rom p = dir"
    using len p by (simp add: rom_bit_rom_set)
  have j0: "length ?rom = 8" using len by simp
  have j1: "filter (\<lambda>d. rom_bit d p = dir) A = filter (\<lambda>d. agree d ?rom (Suc p)) devs"
    using len p by (simp add: A agree_rom_set_Suc conj_commute)
  have j1': "filter (\<lambda>d. rom_bit d p = dir) A \<noteq> []"
    using c1 by (simp add: filter_empty_conv)
  have j2: "\<forall>q. Suc p \<le> q \<longrightarrow> q < 64 \<longrightarrow> rom_bit ?rom q = rom_bit r q"
    using i2 bit_other by auto
  have j3: "\<forall>q<Suc p. int q < ld \<longrightarrow> rom_bit ?rom q = rom_bit r q"
  proof (intro allI impI)
    fix q assume q: "q < Suc p" "int q < ld"
    show "rom_bit ?rom q = rom_bit r q"
    proof (cases "q = p")
      case True
      with q c2 bit_at show ?thesis by simp
    next
      case False
      with q p have "q < p" "q < 64" by simp_all
      with i3 q bit_other False show ?thesis by simp
    qed
  qed
  have j4: "0 \<le> ld \<and> nat ld < Suc p \<longrightarrow> rom_bit ?rom (nat ld)"
  proof (intro impI, elim conjE)
    assume l: "0 \<le> ld" "nat ld < Suc p"
    show "rom_bit ?rom (nat ld)"
    proof (cases "nat ld = p")
      case True
      with l have "int p = ld" by simp
      with c3 bit_at True show ?thesis by simp
    next
      case False
      with l p have "nat ld < p" "nat ld < 64" by simp_all
      with i4 l bit_other False show ?thesis by simp
    qed
  qed
  have j5: "\<forall>q<Suc p. ld < int q \<longrightarrow> rom_bit ?rom q \<longrightarrow>
              (\<forall>d\<in>set devs. agree d ?rom q \<longrightarrow> rom_bit d q)"
  proof (intro allI impI ballI)
    fix q d assume q: "q < Suc p" "ld < int q" "rom_bit ?rom q" and d: "d \<in> set devs" "agree d ?rom q"
    from q p have q64: "q < 64" and qp: "q \<le> p" by simp_all
    from d(2) have ag: "agree d rom q"
      using len p qp by (simp add: agree_rom_set)
    show "rom_bit d q"
    proof (cases "q = p")
      case True
      with q bit_at have "dir" by simp
      moreover from ag d(1) True have "d \<in> set A" by (simp add: setA)
      ultimately show ?thesis using c4 q(2) True by simp
    next
      case False
      with qp have "q < p" by simp
      moreover from q(3) False q64 have "rom_bit rom q" by (simp add: bit_other)
      ultimately show ?thesis using i5 q(2) d(1) ag by blast
    qed
  qed
  have "(\<exists>d\<in>set A. rom_bit d p) = (\<exists>d\<in>set devs. agree d rom p \<and> rom_bit d p)"
    by (auto simp: setA)
  with c5 have "nd' = (if \<not> dir \<and> (\<exists>d\<in>set devs. agree d rom p \<and> rom_bit d p) then int p else nd)"
    by simp
  from recorded_step [OF len p i6 this] have j6: "recorded (set devs) ?rom (Suc p) nd'" .
  show ?thesis
    unfolding pass_inv_def using j0 j1 j1' j2 j3 j4 j5 j6 by blast
qed

lemma prev_in_active:
  assumes inv: "pass_inv devs ld r p rom nd A" and pre: "pass_pre devs ld r" and le: "int p \<le> ld"
  shows "r \<in> set A" "\<And>d. agree d r p = agree d rom p"
proof -
  from inv have A: "A = filter (\<lambda>d. agree d rom p) devs"
    and i3: "\<forall>q<p. int q < ld \<longrightarrow> rom_bit rom q = rom_bit r q"
    unfolding pass_inv_def by blast+
  from le have "0 \<le> ld" by simp
  with pre le have r: "r \<in> set devs" by (auto simp: pass_pre_def)
  have same: "rom_bit rom q = rom_bit r q" if "q < p" for q
    using that i3 le by simp
  then show "agree d r p = agree d rom p" for d
    by (simp add: agree_def)
  from same have "agree r rom p" by (simp add: agree_def)
  with r show "r \<in> set A" by (subst A) simp
qed

lemma unanimous_choice:
  assumes inv: "pass_inv devs ld r p rom nd A" and pre: "pass_pre devs ld r" and p: "p < 64"
    and u: "list_all (\<lambda>d. rom_bit d p) A \<noteq> list_all (\<lambda>d. \<not> rom_bit d p) A"
  shows "pass_inv devs ld r (Suc p) (rom_set rom p (list_all (\<lambda>d. rom_bit d p) A)) nd
           (filter (\<lambda>d. rom_bit d p = list_all (\<lambda>d. rom_bit d p) A) A)"
proof -
  let ?id = "list_all (\<lambda>d. rom_bit d p) A"
  from inv have ne: "A \<noteq> []" and A: "A = filter (\<lambda>d. agree d rom p) devs"
    unfolding pass_inv_def by blast+
  have setA: "set A = {d \<in> set devs. agree d rom p}"
    by (subst A) simp
  from u have all: "\<forall>d\<in>set A. rom_bit d p = ?id"
    by (auto simp: list_all_iff)
  from ne obtain d0 where d0: "d0 \<in> set A" by (cases A) auto
  have c1: "\<exists>d\<in>set A. rom_bit d p = ?id" using d0 all by blast
  have c2: "int p < ld \<longrightarrow> ?id = rom_bit r p"
    using prev_in_active(1) [OF inv pre] all by auto
  have c3: "int p = ld \<longrightarrow> ?id"
  proof
    assume eq: "int p = ld"
    then have rA: "r \<in> set A" and ag: "\<And>d. agree d r p = agree d rom p"
      using prev_in_active [OF inv pre] by simp_all
    from eq pre have "branch (set devs) r p"
      by (auto simp: pass_pre_def recorded_def)
    then obtain d where d: "d \<in> set devs" "agree d r p" "\<not> rom_bit r p" "rom_bit d p"
      by (auto simp: branch_def first_diff_def)
    then have "d \<in> set A" by (simp add: setA ag)
    with all d(3,4) rA show "?id" by blast
  qed
  have c4: "ld < int p \<longrightarrow> ?id \<longrightarrow> (\<forall>d\<in>set A. rom_bit d p)"
    using all by blast
  have c5: "nd = (if \<not> ?id \<and> (\<exists>d\<in>set A. rom_bit d p) then int p else nd)"
    using all by auto
  show ?thesis
    by (rule pass_inv_step [OF inv p c1 c2 c3 c4 c5])
qed

lemma discrepancy_choice:
  assumes inv: "pass_inv devs ld r p rom nd A" and pre: "pass_pre devs ld r" and p: "p < 64"
    and z: "\<not> list_all (\<lambda>d. rom_bit d p) A" "\<not> list_all (\<lambda>d. \<not> rom_bit d p) A"
    and t: "tie_break ld p (rom_bit rom p) nd = (dir, nd')"
  shows "pass_inv devs ld r (Suc p) (rom_set rom p dir) nd' (filter (\<lambda>d. rom_bit d p = dir) A)"
proof -
  from z obtain d0 d1 where d: "d0 \<in> set A" "\<not> rom_bit d0 p" "d1 \<in> set A" "rom_bit d1 p"
    by (auto simp: list_all_iff)
  from inv p have i2: "rom_bit rom p = rom_bit r p"
    unfolding pass_inv_def by blast
  have c1: "\<exists>d\<in>set A. rom_bit d p = dir"
    using d by (cases dir) auto
  have c2: "int p < ld \<longrightarrow> dir = rom_bit r p"
    using t i2 by (auto simp: tie_break_def split: if_splits)
  have c3: "int p = ld \<longrightarrow> dir"
    using t by (auto simp: tie_break_def split: if_splits)
  have c4: "ld < int p \<longrightarrow> dir \<longrightarrow> (\<forall>d\<in>set A. rom_bit d p)"
    using t by (auto simp: tie_break_def split: if_splits)
  have c5: "nd' = (if \<not> dir \<and> (\<exists>d\<in>set A. rom_bit d p) then int p else nd)"
    using t d by (auto simp: tie_break_def split: if_splits)
  show ?thesis
    by (rule pass_inv_step [OF inv p c1 c2 c3 c4 c5])
qed

lemma search_bits_sim_step:
  assumes inv: "pass_inv devs ld r p rom nd A" and pre: "pass_pre devs ld r" and p: "p < 64"
  shows "\<exists>rom1 nd1 A1.
           search_bits sim_bus ld p rom nd (sim_at devs A p)
             = search_bits sim_bus ld (Suc p) rom1 nd1 (sim_at devs A1 (Suc p))
           \<and> pass_inv devs ld r (Suc p) rom1 nd1 A1"
proof -
  let ?id = "list_all (\<lambda>d. rom_bit d p) A" and ?cmp = "list_all (\<lambda>d. \<not> rom_bit d p) A"
  from inv have ne: "A \<noteq> []" unfolding pass_inv_def by blast
  have rd1: "read_bit sim_bus (sim_at devs A p) = (?id, (sim_at devs A p)\<lparr>cmp_next := True\<rparr>)"
    using p by (simp add: sim_read_id)
  have rd2: "read_bit sim_bus ((sim_at devs A p)\<lparr>cmp_next := True\<rparr>) = (?cmp, sim_at devs A p)"
    using p by (simp add: sim_read_cmp)
  have not_both: "\<not> (?id \<and> ?cmp)"
    using ne by (cases A) auto
  show ?thesis
  proof (cases "?id = ?cmp")
    case False
    with not_both have c: "?cmp = (\<not> ?id)" by blast
    have "search_bits sim_bus ld p rom nd (sim_at devs A p)
          = search_bits sim_bus ld (p + 1) (rom_set rom p ?id) nd
              (write_bit sim_bus ?id (sim_at devs A p))"
      using rd1 rd2 unfolding c by (rule search_bits_unanimous [OF p])
    then have "search_bits sim_bus ld p rom nd (sim_at devs A p)
          = search_bits sim_bus ld (Suc p) (rom_set rom p ?id) nd
              (sim_at devs (filter (\<lambda>d. rom_bit d p = ?id) A) (Suc p))"
      by (simp add: sim_write_dir)
    with unanimous_choice [OF inv pre p False] show ?thesis by blast
  next
    case True
    with not_both have z: "\<not> ?id" "\<not> ?cmp" by auto
    obtain dir nd' where t: "tie_break ld p (rom_bit rom p) nd = (dir, nd')"
      by (cases "tie_break ld p (rom_bit rom p) nd") auto
    have "search_bits sim_bus ld p rom nd (sim_at devs A p)
          = search_bits sim_bus ld (p + 1) (rom_set rom p dir) nd'
              (write_bit sim_bus dir (sim_at devs A p))"
      using search_bits_discrepancy [OF p, of sim_bus "sim_at devs A p" _ "sim_at devs A p" ld rom nd]
        rd1 rd2 z by (simp add: t)
    then have "search_bits sim_bus ld p rom nd (sim_at devs A p)
          = search_bits sim_bus ld (Suc p) (rom_set rom p dir) nd'
              (sim_at devs (filter (\<lambda>d. rom_bit d p = dir) A) (Suc p))"
      by (simp add: sim_write_dir)
    with discrepancy_choice [OF inv pre p z t] show ?thesis by blast
  qed
qed

lemma search_bits_sim_run:
  assumes "pass_inv devs ld r p rom nd A" "pass_pre devs ld r" "p \<le> 64"
  shows "\<exists>rom' nd' A'.
           search_bits sim_bus ld p rom nd (sim_at devs A p) = (False, rom', nd', sim_at devs A' 64)
           \<and> pass_inv devs ld r 64 rom' nd' A'"
  using assms
proof (induction "64 - p" arbitrary: p rom nd A)
  case 0
  then have "p = 64" by simp
  with 0 show ?case by (auto simp: search_bits_end)
next
  case (Suc n)
  then have p: "p < 64" by simp
  from search_bits_sim_step [OF Suc.prems(1,2) p] obtain rom1 nd1 A1 where
    st: "search_bits sim_bus ld p rom nd (sim_at devs A p)
           = search_bits sim_bus ld (Suc p) rom1 nd1 (sim_at devs A1 (Suc p))"
    and inv1: "pass_inv devs ld r (Suc p) rom1 nd1 A1"
    by blast
  have "n = 64 - Suc p" using Suc.hyps(2) by simp
  from Suc.hyps(1) [OF this inv1 Suc.prems(2)] p st show ?case by simp
qed

lemma pass_result:
  assumes pre: "pass_pre devs ld r" and ne: "devs \<noteq> []"
    and lens: "list_all (\<lambda>d. length d = 8) devs"
  shows "\<exists>r' nd' s'.
           search_bits sim_bus ld 0 r (- 1) (sim_at devs devs 0) = (False, r', nd', s')
           \<and> devices s' = devs \<and> r' \<in> set devs
           \<and> (\<forall>q<64. int q < ld \<longrightarrow> rom_bit r' q = rom_bit r q)
           \<and> (0 \<le> ld \<longrightarrow> rom_bit r' (nat ld))
           \<and> (\<forall>q<64. ld < int q \<longrightarrow> rom_bit r' q \<longrightarrow>
                 (\<forall>d\<in>set devs. agree d r' q \<longrightarrow> rom_bit d q))
           \<and> recorded (set devs) r' 64 nd'"
proof -
  from pre have len: "length r = 8" by (simp add: pass_pre_def)
  have "pass_inv devs ld r 0 r (- 1) devs"
    using len ne by (simp add: pass_inv_def agree_def recorded_def)
  from search_bits_sim_run [OF this pre] obtain r' nd' A' where
    run: "search_bits sim_bus ld 0 r (- 1) (sim_at devs devs 0) = (False, r', nd', sim_at devs A' 64)"
    and inv: "pass_inv devs ld r 64 r' nd' A'"
    by auto
  from inv have len': "length r' = 8"
    and A': "A' = filter (\<lambda>d. agree d r' 64) devs" and ne': "A' \<noteq> []"
    and i3: "\<forall>q<64. int q < ld \<longrightarrow> rom_bit r' q = rom_bit r q"
    and i4: "0 \<le> ld \<and> nat ld < 64 \<longrightarrow> rom_bit r' (nat ld)"
    and i5: "\<forall>q<64. ld < int q \<longrightarrow> rom_bit r' q \<longrightarrow> (\<forall>d\<in>set devs. agree d r' q \<longrightarrow> rom_bit d q)"
    and i6: "recorded (set devs) r' 64 nd'"
    unfolding pass_inv_def by blast+
  from ne' obtain d where "d \<in> set A'" by (cases A') auto
  then have d: "d \<in> set devs" "agree d r' 64" by (simp_all add: A')
  from d(1) lens have "length d = 8" by (simp add: list_all_iff)
  with len' d(2) have "r' = d"
    by (intro rom_ext) (simp_all add: agree_def)
  with d(1) have mem: "r' \<in> set devs" by simp
  have "0 \<le> ld \<longrightarrow> nat ld < 64"
    using pre by (auto simp: pass_pre_def recorded_def)
  with i4 have r3: "0 \<le> ld \<longrightarrow> rom_bit r' (nat ld)" by blast
  have "devices (sim_at devs A' 64) = devs" by (simp add: sim_at_def)
  with run mem i3 r3 i5 i6 show ?thesis by blast
qed

subsection \<open>The order of codes\<close>

lemma rom_lt_irrefl: "\<not> rom_lt r r"
  by (simp add: rom_lt_def first_diff_def)

lemma agree_mono: "agree d r p \<Longrightarrow> q \<le> p \<Longrightarrow> agree d r q"
  by (simp add: agree_def)

lemma agree_sym: "agree d r p = agree r d p"
  by (auto simp: agree_def)

lemma agree_trans: "agree a b p \<Longrightarrow> agree b c p \<Longrightarrow> agree a c p"
  by (simp add: agree_def)

lemma rom_lt_trans:
  assumes "rom_lt a b" "rom_lt b c"
  shows "rom_lt a c"
proof -
  from assms obtain p q where p: "first_diff a b p" and q: "first_diff b c q"
    by (auto simp: rom_lt_def)
  consider "p < q" | "p = q" | "q < p" by (rule linorder_cases)
  then show ?thesis
  proof cases
    case 1
    with p q have "first_diff a c p"
      by (auto simp: first_diff_def agree_def)
    then show ?thesis by (auto simp: rom_lt_def)
  next
    case 2
    with p q show ?thesis by (simp add: first_diff_def)
  next
    case 3
    with p q have "first_diff a c q"
      by (auto simp: first_diff_def agree_def)
    then show ?thesis by (auto simp: rom_lt_def)
  qed
qed

lemma first_difference:
  assumes "length a = 8" "length b = 8" "a \<noteq> b"
  obtains p where "p < 64" "agree a b p" "rom_bit a p \<noteq> rom_bit b p"
proof -
  from assms have ex: "\<exists>p. p < 64 \<and> rom_bit a p \<noteq> rom_bit b p"
    using rom_ext [of a b] by blast
  define p where "p = (LEAST p. p < 64 \<and> rom_bit a p \<noteq> rom_bit b p)"
  from ex have 1: "p < 64 \<and> rom_bit a p \<noteq> rom_bit b p"
    unfolding p_def by (rule LeastI_ex)
  have "\<not> (q < 64 \<and> rom_bit a q \<noteq> rom_bit b q)" if "q < p" for q
    using that unfolding p_def by (rule not_less_Least)
  with 1 have "agree a b p" by (auto simp: agree_def)
  with 1 show ?thesis by (auto intro: that)
qed

lemma rom_lt_total:
  assumes "length a = 8" "length b = 8" "a \<noteq> b"
  shows "rom_lt a b \<or> rom_lt b a"
proof -
  from assms obtain p where p: "p < 64" "agree a b p" "rom_bit a p \<noteq> rom_bit b p"
    by (rule first_difference)
  then show ?thesis
    by (cases "rom_bit a p") (auto simp: rom_lt_def first_diff_def agree_sym [of a b])
qed

lemma above_minimal:
  assumes lens: "list_all (\<lambda>d. length d = 8) devs"
    and r': "r' \<in> set devs" and d: "d \<in> set devs" "d \<noteq> r'"
    and ag: "agree d r' m" "m \<le> 64"
    and r4: "\<forall>q<64. int m \<le> int q \<longrightarrow> rom_bit r' q \<longrightarrow>
               (\<forall>d\<in>set devs. agree d r' q \<longrightarrow> rom_bit d q)"
  shows "rom_lt r' d"
proof -
  from lens r' d(1) have ld8: "length d = 8" "length r' = 8" by (simp_all add: list_all_iff)
  from ld8 d(2) obtain q where q: "q < 64" "agree d r' q" "rom_bit d q \<noteq> rom_bit r' q"
    by (rule first_difference)
  have "m \<le> q"
  proof (rule ccontr)
    assume "\<not> m \<le> q"
    then have "q < m" by simp
    with ag(1) q(3) show False by (simp add: agree_def)
  qed
  have "\<not> rom_bit r' q"
  proof
    assume "rom_bit r' q"
    with r4 q(1,2) \<open>m \<le> q\<close> d(1) have "rom_bit d q" by simp
    with q(3) \<open>rom_bit r' q\<close> show False by simp
  qed
  with q have "first_diff r' d q" by (simp add: first_diff_def)
  then show ?thesis by (auto simp: rom_lt_def)
qed

lemma pass_minimal:
  assumes pre: "pass_pre devs ld r" and lens: "list_all (\<lambda>d. length d = 8) devs"
    and r': "r' \<in> set devs"
    and r2: "\<forall>q<64. int q < ld \<longrightarrow> rom_bit r' q = rom_bit r q"
    and r3: "0 \<le> ld \<longrightarrow> rom_bit r' (nat ld)"
    and r4: "\<forall>q<64. ld < int q \<longrightarrow> rom_bit r' q \<longrightarrow>
               (\<forall>d\<in>set devs. agree d r' q \<longrightarrow> rom_bit d q)"
  shows "r' \<in> remaining devs ld r"
    and "\<forall>d\<in>remaining devs ld r. d = r' \<or> rom_lt r' d"
proof -
  show "r' \<in> remaining devs ld r"
  proof (cases "ld < 0")
    case True
    with r' show ?thesis by (simp add: remaining_def)
  next
    case False
    with pre have b: "branch (set devs) r (nat ld)" and l64: "nat ld < 64"
      by (auto simp: pass_pre_def recorded_def)
    from b have "\<not> rom_bit r (nat ld)" by (auto simp: branch_def first_diff_def)
    moreover have "agree r' r (nat ld)"
      using r2 l64 False by (simp add: agree_def)
    ultimately have "first_diff r r' (nat ld)"
      using r3 False l64 by (simp add: first_diff_def)
    with r' False show ?thesis by (auto simp: remaining_def rom_lt_def)
  qed
  show "\<forall>d\<in>remaining devs ld r. d = r' \<or> rom_lt r' d"
  proof (intro ballI)
    fix d assume dr: "d \<in> remaining devs ld r"
    show "d = r' \<or> rom_lt r' d"
    proof (cases "ld < 0")
      case True
      with dr have d: "d \<in> set devs" by (simp add: remaining_def)
      from True pre have ld: "ld = - 1" by (auto simp: pass_pre_def)
      have "rom_lt r' d" if "d \<noteq> r'"
        using lens r' d that
      proof (rule above_minimal [where m = 0])
        show "agree d r' 0" by (simp add: agree_def)
        show "\<forall>q<64. int 0 \<le> int q \<longrightarrow> rom_bit r' q \<longrightarrow>
               (\<forall>d\<in>set devs. agree d r' q \<longrightarrow> rom_bit d q)"
        proof (intro allI impI)
          fix q assume q: "q < 64" "rom_bit r' q"
          have "ld < int q" unfolding ld by linarith
          with r4 q show "\<forall>d\<in>set devs. agree d r' q \<longrightarrow> rom_bit d q" by blast
        qed
      qed simp
      then show ?thesis by blast
    next
      case False
      with dr have d: "d \<in> set devs" and lt: "rom_lt r d" by (simp_all add: remaining_def)
      from False pre have l64: "nat ld < 64"
        and top: "\<forall>q<64. branch (set devs) r q \<longrightarrow> int q \<le> ld"
        by (auto simp: pass_pre_def recorded_def)
      from lt obtain p where p: "p < 64" "agree d r p" "\<not> rom_bit r p" "rom_bit d p"
        by (auto simp: rom_lt_def first_diff_def)
      with d have "branch (set devs) r p" by (auto simp: branch_def first_diff_def)
      with top p(1) have ple: "int p \<le> ld" by simp
      show ?thesis
      proof (cases "int p < ld")
        case True
        have "agree d r' p"
          using p(2) r2 True p(1) by (simp add: agree_def)
        moreover have "\<not> rom_bit r' p" using r2 True p(1,3) by simp
        ultimately have "first_diff r' d p" using p by (simp add: first_diff_def)
        then show ?thesis by (auto simp: rom_lt_def)
      next
        case F: False
        with ple have eq: "p = nat ld" "0 \<le> ld" by simp_all
        have ag: "agree d r' (Suc p)"
          unfolding agree_Suc
        proof
          show "agree d r' p"
            using p(2) r2 eq p(1) by (simp add: agree_def)
          show "rom_bit d p = rom_bit r' p"
            using p(4) r3 eq by simp
        qed
        have "rom_lt r' d" if "d \<noteq> r'"
          using lens r' d that ag
        proof (rule above_minimal)
          show "Suc p \<le> 64" using p(1) by simp
          show "\<forall>q<64. int (Suc p) \<le> int q \<longrightarrow> rom_bit r' q \<longrightarrow>
                 (\<forall>d\<in>set devs. agree d r' q \<longrightarrow> rom_bit d q)"
          proof (intro allI impI)
            fix q assume q: "q < 64" "int (Suc p) \<le> int q" "rom_bit r' q"
            from q(2) eq have "ld < int q" by linarith
            with r4 q(1,3) show "\<forall>d\<in>set devs. agree d r' q \<longrightarrow> rom_bit d q" by blast
          qed
        qed
        then show ?thesis by blast
      qed
    qed
  qed
qed

lemma remaining_next:
  assumes lens: "list_all (\<lambda>d. length d = 8) devs"
    and mem: "r' \<in> remaining devs ld r"
    and min: "\<forall>d\<in>remaining devs ld r. d = r' \<or> rom_lt r' d"
    and nd: "0 \<le> nd"
    and pre: "pass_pre devs ld r"
  shows "remaining devs nd r' = remaining devs ld r - {r'}"
proof -
  have sub: "remaining devs ld r \<subseteq> set devs" by (auto simp: remaining_def)
  show ?thesis
  proof (intro set_eqI iffI)
    fix d assume "d \<in> remaining devs nd r'"
    with nd have d: "d \<in> set devs" "rom_lt r' d" by (simp_all add: remaining_def)
    then have "d \<noteq> r'" using rom_lt_irrefl by auto
    moreover have "d \<in> remaining devs ld r"
    proof (cases "ld < 0")
      case True
      with d show ?thesis by (simp add: remaining_def)
    next
      case False
      with mem have "rom_lt r r'" by (simp add: remaining_def)
      from this d(2) have "rom_lt r d" by (rule rom_lt_trans)
      with d(1) False show ?thesis by (simp add: remaining_def)
    qed
    ultimately show "d \<in> remaining devs ld r - {r'}" by simp
  next
    fix d assume "d \<in> remaining devs ld r - {r'}"
    then have "d \<in> remaining devs ld r" "d \<noteq> r'" by simp_all
    with min sub have "d \<in> set devs" "rom_lt r' d" by auto
    with nd show "d \<in> remaining devs nd r'" by (simp add: remaining_def)
  qed
qed

lemma search_loop_done:
  "search_loop B max_devices device_count ld True rom roms s = (roms, device_count, s)"
  by (subst search_loop.simps) simp

lemma search_loop_sim_pass:
  assumes lt: "int device_count < max_devices" and ne: "devices s \<noteq> []"
    and run: "search_bits sim_bus ld 0 rom (- 1) (sim_at (devices s) (devices s) 0)
                = (False, rom1, nd, s3)"
  shows "search_loop sim_bus max_devices device_count ld False rom roms s
           = search_loop sim_bus max_devices (device_count + 1) nd (nd < 0) rom1 (roms @ [rom1]) s3"
proof -
  define s1 where "s1 = snd (sim_reset s)"
  have rs: "sim_reset s = (True, s1)"
    using ne by (simp add: s1_def sim_reset_def)
  have wb: "ow_write_byte sim_bus OW_CMD_SEARCH_ROM s1 = sim_at (devices s) (devices s) 0"
    unfolding s1_def by (rule sim_search_start)
  show ?thesis
    using lt by (subst search_loop.simps) (simp add: rs wb run)
qed


lemma remaining_subset: "remaining devs ld r \<subseteq> set devs"
  by (auto simp: remaining_def)

lemma finite_remaining [simp]: "finite (remaining devs ld r)"
  using remaining_subset by (rule finite_subset) simp

lemma search_loop_sim:
  assumes lens: "list_all (\<lambda>d. length d = 8) devs"
  shows "pass_pre devs ld r \<Longrightarrow> devices s = devs \<Longrightarrow> remaining devs ld r \<noteq> {} \<Longrightarrow>
         int count + int (card (remaining devs ld r)) \<le> max_devices \<Longrightarrow>
         \<exists>xs s'. search_loop sim_bus max_devices count ld False r roms s
                    = (roms @ xs, count + length xs, s')
                  \<and> sorted_wrt rom_lt xs \<and> set xs = remaining devs ld r"
proof (induction "card (remaining devs ld r)" arbitrary: count ld r roms s)
  case 0
  then show ?case by simp
next
  case (Suc n)
  note pre = Suc.prems(1) and dev = Suc.prems(2) and ne = Suc.prems(3) and budget = Suc.prems(4)
  from ne remaining_subset [of devs ld r] have devs_ne: "devs \<noteq> []" by auto
  from Suc.hyps(2) budget have lt: "int count < max_devices" by simp
  from pass_result [OF pre devs_ne lens] obtain r' nd' s3 where
    run: "search_bits sim_bus ld 0 r (- 1) (sim_at devs devs 0) = (False, r', nd', s3)"
    and dev3: "devices s3 = devs" and mem: "r' \<in> set devs"
    and r2: "\<forall>q<64. int q < ld \<longrightarrow> rom_bit r' q = rom_bit r q"
    and r3: "0 \<le> ld \<longrightarrow> rom_bit r' (nat ld)"
    and r4: "\<forall>q<64. ld < int q \<longrightarrow> rom_bit r' q \<longrightarrow>
               (\<forall>d\<in>set devs. agree d r' q \<longrightarrow> rom_bit d q)"
    and rec: "recorded (set devs) r' 64 nd'"
    by blast
  have step: "search_loop sim_bus max_devices count ld False r roms s
           = search_loop sim_bus max_devices (count + 1) nd' (nd' < 0) r' (roms @ [r']) s3"
    using lt devs_ne run by (intro search_loop_sim_pass) (simp_all add: dev)
  from pass_minimal [OF pre lens mem r2 r3 r4]
  have in_rem: "r' \<in> remaining devs ld r"
    and least: "\<forall>d\<in>remaining devs ld r. d = r' \<or> rom_lt r' d"
    by blast+
  from mem lens have len': "length r' = 8" by (simp add: list_all_iff)
  show ?case
  proof (cases "nd' < 0")
    case True
    with rec have nobranch: "\<forall>q<64. \<not> branch (set devs) r' q"
      by (auto simp: recorded_def)
    have "d = r'" if "d \<in> remaining devs ld r" for d
    proof (rule ccontr)
      assume "d \<noteq> r'"
      with least that have "rom_lt r' d" by blast
      then obtain p where "first_diff r' d p" by (auto simp: rom_lt_def)
      moreover from that remaining_subset have "d \<in> set devs" by blast
      ultimately have "branch (set devs) r' p" "p < 64"
        by (auto simp: branch_def first_diff_def)
      with nobranch show False by blast
    qed
    with in_rem have "remaining devs ld r = {r'}" by blast
    then have "set [r'] = remaining devs ld r" by simp
    moreover have "search_loop sim_bus max_devices count ld False r roms s
                   = (roms @ [r'], count + length [r'], s3)"
      using True by (simp add: step search_loop_done)
    moreover have "sorted_wrt rom_lt [r']" by simp
    ultimately show ?thesis by blast
  next
    case False
    then have nd0: "0 \<le> nd'" by simp
    with rec have br: "branch (set devs) r' (nat nd')"
      by (auto simp: recorded_def)
    have pre': "pass_pre devs nd' r'"
      using len' nd0 mem rec by (simp add: pass_pre_def)
    have rem': "remaining devs nd' r' = remaining devs ld r - {r'}"
      using lens in_rem least nd0 pre by (rule remaining_next)
    from br obtain d where "d \<in> set devs" "first_diff r' d (nat nd')"
      by (auto simp: branch_def)
    then have "d \<in> remaining devs nd' r'"
      using nd0 by (auto simp: remaining_def rom_lt_def)
    then have ne': "remaining devs nd' r' \<noteq> {}" by blast
    have card': "n = card (remaining devs nd' r')"
      using Suc.hyps(2) in_rem by (simp add: rem')
    have budget': "int (count + 1) + int (card (remaining devs nd' r')) \<le> max_devices"
      using budget Suc.hyps(2) card' by simp
    from Suc.hyps(1) [OF card' pre' dev3 ne' budget', of "roms @ [r']"]
    obtain xs s' where
      res: "search_loop sim_bus max_devices (count + 1) nd' False r' (roms @ [r']) s3
              = ((roms @ [r']) @ xs, count + 1 + length xs, s')"
      and sorted: "sorted_wrt rom_lt xs" and setxs: "set xs = remaining devs nd' r'"
      by blast
    have "search_loop sim_bus max_devices count ld False r roms s
            = (roms @ (r' # xs), count + length (r' # xs), s')"
      using False res by (simp add: step)
    moreover have "sorted_wrt rom_lt (r' # xs)"
      using sorted setxs nd0 by (simp add: remaining_def)
    moreover have "set (r' # xs) = remaining devs ld r"
      using setxs rem' in_rem by auto
    ultimately show ?thesis by blast
  qed
qed

lemma sorted_wrt_rom_lt_distinct: "sorted_wrt rom_lt xs \<Longrightarrow> distinct xs"
  by (induction xs) (auto simp: rom_lt_irrefl)

lemma search_sorted:
  assumes dist: "distinct devs" and lens: "list_all (\<lambda>d. length d = 8) devs"
    and cap: "int (length devs) \<le> max_devices"
  shows "\<exists>roms s'. ow_search_rom sim_bus max_devices (sim_init devs) = (roms, length devs, s')
                   \<and> sorted_wrt rom_lt roms \<and> set roms = set devs"
proof (cases "devs = []")
  case True
  have "ow_search_rom sim_bus max_devices (sim_init []) = ([], 0, snd (snd (ow_search_rom sim_bus max_devices (sim_init []))))"
    unfolding ow_search_rom_def
    by (subst search_loop.simps, subst (2) search_loop.simps)
       (simp add: sim_reset_def sim_init_def)
  with True show ?thesis by auto
next
  case False
  have pre: "pass_pre devs (- 1) (replicate 8 0)"
    by (simp add: pass_pre_def)
  have rem: "remaining devs (- 1) (replicate 8 0) = set devs"
    by (simp add: remaining_def)
  have card: "card (set devs) = length devs"
    using dist by (rule distinct_card)
  from search_loop_sim [OF lens pre, of "sim_init devs" 0 max_devices "[]"] False cap
  obtain xs s' where
    res: "search_loop sim_bus max_devices 0 (- 1) False (replicate 8 0) [] (sim_init devs)
            = (xs, length xs, s')"
    and sorted: "sorted_wrt rom_lt xs" and setxs: "set xs = set devs"
    by (auto simp: rem card sim_init_def)
  from sorted have "distinct xs" by (rule sorted_wrt_rom_lt_distinct)
  then have "length xs = card (set xs)" by (simp add: distinct_card)
  with setxs card have "length xs = length devs" by simp
  with res sorted setxs show ?thesis by (auto simp: ow_search_rom_def)
qed

text \<open>
  Claim C1. On a simulated bus holding distinct 8-byte codes, no more of them than
  \<open>max_devices\<close>, \<open>ow_search_rom\<close> (a total function: its loops terminate on every bus)
  returns as many codes as there are devices, each device's code and each once.
\<close>

theorem discovery_complete:
  assumes "distinct devs" "list_all (\<lambda>d. length d = 8) devs"
    "int (length devs) \<le> max_devices"
  shows "\<exists>roms s'. ow_search_rom sim_bus max_devices (sim_init devs) = (roms, length devs, s')
                   \<and> distinct roms \<and> set roms = set devs"
  using search_sorted [OF assms] sorted_wrt_rom_lt_distinct by blast

theorem discovery_complete_witness:
  "distinct [dev_b, dev_c, dev_a] \<and> list_all (\<lambda>d. length d = 8) [dev_b, dev_c, dev_a]
   \<and> int (length [dev_b, dev_c, dev_a]) \<le> 16
   \<and> (\<exists>roms s'. ow_search_rom sim_bus 16 (sim_init [dev_b, dev_c, dev_a])
                     = (roms, length [dev_b, dev_c, dev_a], s')
                  \<and> distinct roms \<and> set roms = set [dev_b, dev_c, dev_a])"
proof -
  have h: "distinct [dev_b, dev_c, dev_a]" "list_all (\<lambda>d. length d = 8) [dev_b, dev_c, dev_a]"
    "int (length [dev_b, dev_c, dev_a]) \<le> 16"
    by (simp_all add: dev_a_def dev_b_def dev_c_def)
  from discovery_complete [OF h] h show ?thesis by blast
qed

lemma two_element_list:
  assumes "distinct xs" "set xs = {a, b}" "a \<noteq> b"
  shows "xs = [a, b] \<or> xs = [b, a]"
proof -
  from assms have "length xs = 2"
    by (metis card_2_iff distinct_card)
  then obtain x y where xs: "xs = [x, y]"
    by (cases xs; cases "tl xs") auto
  with assms show ?thesis by (auto simp: doubleton_eq_iff)
qed

lemma two_codes_order:
  assumes la: "length a = 8" and lb: "length b = 8" and k: "k < 64"
    and ak: "\<not> rom_bit a k" and bk: "rom_bit b k"
    and same: "\<forall>q<64. q \<noteq> k \<longrightarrow> rom_bit a q = rom_bit b q"
    and cap: "2 \<le> max_devices"
    and devs: "devs = [a, b] \<or> devs = [b, a]"
  shows "\<exists>s'. ow_search_rom sim_bus max_devices (sim_init devs) = ([a, b], 2, s')"
proof -
  from ak bk have ne: "a \<noteq> b" by auto
  have lt: "rom_lt a b"
    using k ak bk same by (auto simp: rom_lt_def first_diff_def agree_def)
  have "distinct devs" "list_all (\<lambda>d. length d = 8) devs" "int (length devs) \<le> max_devices"
    "set devs = {a, b}" "length devs = 2"
    using devs ne la lb cap by auto
  from search_sorted [OF this(1-3)] this(4,5) obtain roms s' where
    res: "ow_search_rom sim_bus max_devices (sim_init devs) = (roms, 2, s')"
    and sorted: "sorted_wrt rom_lt roms" and setr: "set roms = {a, b}"
    by auto
  from sorted have "distinct roms" by (rule sorted_wrt_rom_lt_distinct)
  from two_element_list [OF this setr ne] have "roms = [a, b]"
  proof
    assume "roms = [b, a]"
    with sorted have "rom_lt b a" by simp
    from this lt have "rom_lt b b" by (rule rom_lt_trans)
    then show ?thesis by (simp add: rom_lt_irrefl)
  qed
  with res show ?thesis by blast
qed

text \<open>
  Claim C2. At a position where both response bits read 0, the pass continues with the
  branch bit and the recorded discrepancy that the specified tie-break gives from the last
  discrepancy, the position, the bit that the buffer still holds there from the previous
  pass, and the discrepancy recorded so far; the branch bit is stored at the position and
  written to the bus. Two codes that differ only at bit \<open>k\<close> are returned in the order:
  the one with bit \<open>k = 0\<close>, then the one with bit \<open>k = 1\<close>, whatever their order on the bus.
\<close>

theorem tie_break_determinism:
  "(bit_pos < 64 \<and> read_bit B s = (False, s1) \<and> read_bit B s1 = (False, s2) \<longrightarrow>
      search_bits B last_discrepancy bit_pos rom new_discrepancy s =
        (let (dir, nd) = tie_break last_discrepancy bit_pos (rom_bit rom bit_pos) new_discrepancy
         in search_bits B last_discrepancy (bit_pos + 1) (rom_set rom bit_pos dir) nd
              (write_bit B dir s2)))
   \<and> (length rom = 8 \<and> bit_pos < 64 \<and> q < 64 \<longrightarrow>
        rom_bit (rom_set rom bit_pos dir) q = (if q = bit_pos then dir else rom_bit rom q))
   \<and> (length a = 8 \<and> length b = 8 \<and> k < 64 \<and> \<not> rom_bit a k \<and> rom_bit b k
       \<and> (\<forall>q<64. q \<noteq> k \<longrightarrow> rom_bit a q = rom_bit b q) \<and> 2 \<le> max_devices \<longrightarrow>
        (\<exists>s'. ow_search_rom sim_bus max_devices (sim_init [a, b]) = ([a, b], 2, s'))
        \<and> (\<exists>s'. ow_search_rom sim_bus max_devices (sim_init [b, a]) = ([a, b], 2, s')))"
proof (intro conjI impI)
  assume "bit_pos < 64 \<and> read_bit B s = (False, s1) \<and> read_bit B s1 = (False, s2)"
  then have h: "bit_pos < 64" "read_bit B s = (False, s1)" "read_bit B s1 = (False, s2)"
    by blast+
  show "search_bits B last_discrepancy bit_pos rom new_discrepancy s =
        (let (dir, nd) = tie_break last_discrepancy bit_pos (rom_bit rom bit_pos) new_discrepancy
         in search_bits B last_discrepancy (bit_pos + 1) (rom_set rom bit_pos dir) nd
              (write_bit B dir s2))"
    by (rule search_bits_discrepancy [OF h])
next
  assume "length rom = 8 \<and> bit_pos < 64 \<and> q < 64"
  then have h: "length rom = 8" "bit_pos < 64" "q < 64" by blast+
  show "rom_bit (rom_set rom bit_pos dir) q = (if q = bit_pos then dir else rom_bit rom q)"
    by (rule rom_bit_rom_set [OF h])
next
  assume h: "length a = 8 \<and> length b = 8 \<and> k < 64 \<and> \<not> rom_bit a k \<and> rom_bit b k
       \<and> (\<forall>q<64. q \<noteq> k \<longrightarrow> rom_bit a q = rom_bit b q) \<and> 2 \<le> max_devices"
  then show "\<exists>s'. ow_search_rom sim_bus max_devices (sim_init [a, b]) = ([a, b], 2, s')"
    using two_codes_order [of a b k max_devices "[a, b]"] by blast
next
  assume h: "length a = 8 \<and> length b = 8 \<and> k < 64 \<and> \<not> rom_bit a k \<and> rom_bit b k
       \<and> (\<forall>q<64. q \<noteq> k \<longrightarrow> rom_bit a q = rom_bit b q) \<and> 2 \<le> max_devices"
  then show "\<exists>s'. ow_search_rom sim_bus max_devices (sim_init [b, a]) = ([a, b], 2, s')"
    using two_codes_order [of a b k max_devices "[b, a]"] by blast
qed


lemma dev_b_eq: "dev_b = rom_set dev_a 0 True"
  by (simp add: dev_a_def dev_b_def rom_set_def)

theorem tie_break_determinism_witness:
  "read_bit sim_bus (sim_at [dev_a, dev_b] [dev_a, dev_b] 0)
     = (False, (sim_at [dev_a, dev_b] [dev_a, dev_b] 0)\<lparr>cmp_next := True\<rparr>)
   \<and> read_bit sim_bus ((sim_at [dev_a, dev_b] [dev_a, dev_b] 0)\<lparr>cmp_next := True\<rparr>)
     = (False, sim_at [dev_a, dev_b] [dev_a, dev_b] 0)
   \<and> search_bits sim_bus (- 1) 0 (replicate 8 0) (- 1) (sim_at [dev_a, dev_b] [dev_a, dev_b] 0) =
        (let (dir, nd) = tie_break (- 1) 0 (rom_bit (replicate 8 0) 0) (- 1)
         in search_bits sim_bus (- 1) (0 + 1) (rom_set (replicate 8 0) 0 dir) nd
              (write_bit sim_bus dir (sim_at [dev_a, dev_b] [dev_a, dev_b] 0)))
   \<and> rom_bit (rom_set (replicate 8 0) 0 True) 0 = (if (0::nat) = 0 then True else rom_bit (replicate 8 0) 0)
   \<and> (\<exists>s'. ow_search_rom sim_bus 2 (sim_init [dev_a, dev_b]) = ([dev_a, dev_b], 2, s'))
   \<and> (\<exists>s'. ow_search_rom sim_bus 2 (sim_init [dev_b, dev_a]) = ([dev_a, dev_b], 2, s'))"
proof -
  let ?S = "sim_at [dev_a, dev_b] [dev_a, dev_b] 0"
  have a0: "\<not> rom_bit dev_a 0" by (simp add: rom_bit_def dev_a_def)
  have b0: "rom_bit dev_b 0" by (simp add: rom_bit_def dev_b_def)
  have r1: "read_bit sim_bus ?S = (False, ?S\<lparr>cmp_next := True\<rparr>)"
    using a0 by (simp add: sim_read_id)
  have r2: "read_bit sim_bus (?S\<lparr>cmp_next := True\<rparr>) = (False, ?S)"
    using b0 by (simp add: sim_read_cmp)
  have la: "length dev_a = 8" by (simp add: dev_a_def)
  have lb: "length dev_b = 8" by (simp add: dev_b_def)
  have same: "\<forall>q<64. q \<noteq> 0 \<longrightarrow> rom_bit dev_a q = rom_bit dev_b q"
    using la by (simp add: dev_b_eq rom_bit_rom_set)
  have z: "length (replicate 8 (0::u8)) = 8" by simp
  have n: "(0::nat) < 64" "(2::int) \<le> 2" by simp_all
  from tie_break_determinism [where bit_pos = 0 and B = sim_bus and s = ?S
      and ?s1.0 = "?S\<lparr>cmp_next := True\<rparr>" and ?s2.0 = ?S and last_discrepancy = "- 1"
      and rom = "replicate 8 0" and new_discrepancy = "- 1" and q = 0 and dir = True
      and a = dev_a and b = dev_b and k = 0 and max_devices = 2]
    r1 r2 la lb a0 b0 same z n
  show ?thesis by blast
qed


end
